theory Spec2Isabelle
  imports Complex_Main "HOL-Library.Product_Lexorder"
begin

section \<open>Python strings, cell values and the Unicode tables\<close>

text \<open>
  A Python \<open>str\<close> is a sequence of Unicode code points, so a string is modelled as the
  list of its code points (\<open>len\<close> is \<open>length\<close>).  \<open>lit\<close> turns an Isabelle string
  literal (ASCII) into such a string.
\<close>

type_synonym pystr = "nat list"

definition lit :: "string \<Rightarrow> pystr" where
  "lit s = map of_char s"

text \<open>
  The scripts call into the Unicode character database through \<open>str.lower\<close>,
  \<open>unicodedata.normalize('NFKD', _)\<close>, the regular-expression classes \<open>\w\<close> and
  \<open>\s\<close> (the latter is also what \<open>str.strip\<close> and \<open>str.split\<close> use:
  \<open>str.isspace\<close>) and \<open>unicodedata.category(c) == 'Mn'\<close>.  These tables are not part
  of the repository; every function below takes them as the parameter \<open>U\<close>.
\<close>

record unicode_tables =
  str_lower :: "pystr \<Rightarrow> pystr"
  nfkd :: "pystr \<Rightarrow> pystr"
  re_word :: "nat \<Rightarrow> bool"
  is_space :: "nat \<Rightarrow> bool"
  cat_Mn :: "nat \<Rightarrow> bool"

text \<open>
  An excerpt of the tables, exact on ASCII (code points below 128) and on U+2122 TRADE MARK
  SIGN: ASCII letters are lowercased and are their own decomposition; \<open>\w\<close> is
  \<open>[A-Za-z0-9_]\<close>; \<open>str.isspace\<close> holds of TAB..CR, FS..US and SPACE; U+2122 has no
  lowercase mapping, is a symbol (neither \<open>\w\<close> nor \<open>\s\<close>), and its compatibility
  decomposition is \<open>TM\<close>.  Other code points are outside the excerpt (left unchanged);
  the excerpt is only used to evaluate the functions on strings made of ASCII and U+2122.
\<close>

definition lower_cp :: "nat \<Rightarrow> nat" where
  "lower_cp c = (if 65 \<le> c \<and> c \<le> 90 then c + 32 else c)"

definition nfkd_cp :: "nat \<Rightarrow> nat list" where
  "nfkd_cp c = (if c = 8482 then [84, 77] else [c])"

definition word_cp :: "nat \<Rightarrow> bool" where
  "word_cp c = ((48 \<le> c \<and> c \<le> 57) \<or> (65 \<le> c \<and> c \<le> 90) \<or> c = 95 \<or> (97 \<le> c \<and> c \<le> 122))"

definition space_cp :: "nat \<Rightarrow> bool" where
  "space_cp c = ((9 \<le> c \<and> c \<le> 13) \<or> (28 \<le> c \<and> c \<le> 32))"

definition unicode_excerpt :: unicode_tables where
  "unicode_excerpt =
     \<lparr> str_lower = map lower_cp,
       nfkd = (\<lambda>s. concat (map nfkd_cp s)),
       re_word = word_cp,
       is_space = space_cp,
       cat_Mn = (\<lambda>c. False) \<rparr>"

text \<open>
  A value read from a bibliography entry is a string.  A value read by pandas from a
  CSV or spreadsheet cell is a string, a number, \<open>None\<close> or \<open>NaN\<close>.  A number is
  represented by the text \<open>str()\<close> renders for it.
\<close>

datatype cell = CNone | CNaN | CStr pystr | CNum pystr

definition isna :: "cell \<Rightarrow> bool" where
  "isna v = (case v of CNone \<Rightarrow> True | CNaN \<Rightarrow> True | _ \<Rightarrow> False)"

definition py_str :: "cell \<Rightarrow> pystr" where
  "py_str v = (case v of CNone \<Rightarrow> lit ''None'' | CNaN \<Rightarrow> lit ''nan'' | CStr s \<Rightarrow> s | CNum r \<Rightarrow> r)"

section \<open>String primitives\<close>

text \<open>\<open>s.strip()\<close>: drop leading and trailing whitespace.\<close>

definition strip :: "unicode_tables \<Rightarrow> pystr \<Rightarrow> pystr" where
  "strip U s = rev (dropWhile (is_space U) (rev (dropWhile (is_space U) s)))"

text \<open>\<open>re.sub(r'[^\w\s]', '', text)\<close>: delete what is neither a word character nor whitespace.\<close>

definition del_special :: "unicode_tables \<Rightarrow> pystr \<Rightarrow> pystr" where
  "del_special U s = filter (\<lambda>c. re_word U c \<or> is_space U c) s"

text \<open>\<open>re.sub(r'[^\w\s]', ' ', text)\<close>: the same characters, replaced by a space each.\<close>

definition blank_special :: "unicode_tables \<Rightarrow> pystr \<Rightarrow> pystr" where
  "blank_special U s = map (\<lambda>c. if re_word U c \<or> is_space U c then c else 32) s"

text \<open>\<open>re.sub(r'\s+', ' ', text)\<close>: every maximal run of whitespace becomes one space.\<close>

function sub_space_runs :: "unicode_tables \<Rightarrow> pystr \<Rightarrow> pystr" where
  "sub_space_runs U [] = []"
| "sub_space_runs U (c # cs) =
     (if is_space U c then 32 # sub_space_runs U (dropWhile (is_space U) cs)
      else c # sub_space_runs U cs)"
  by pat_completeness auto
termination
  by (relation "measure (\<lambda>(U, s). length s)")
     (auto simp: less_Suc_eq_le length_dropWhile_le)

text \<open>\<open>text.split()\<close>: the maximal runs of non-whitespace, in order.\<close>

function split_ws :: "unicode_tables \<Rightarrow> pystr \<Rightarrow> pystr list" where
  "split_ws U s =
     (case dropWhile (is_space U) s of
        [] \<Rightarrow> []
      | c # cs \<Rightarrow> (c # takeWhile (\<lambda>x. \<not> is_space U x) cs)
                 # split_ws U (dropWhile (\<lambda>x. \<not> is_space U x) cs))"
  by pat_completeness auto
termination
proof (relation "measure (\<lambda>(U, s). length s)", goal_cases)
  case 1
  show ?case by simp
next
  case (2 U s c cs)
  have "length (dropWhile (\<lambda>x. \<not> is_space U x) cs) \<le> length cs"
    by (rule length_dropWhile_le)
  moreover have "length (dropWhile (is_space U) s) \<le> length s"
    by (rule length_dropWhile_le)
  ultimately show ?case using 2 by simp
qed

text \<open>\<open>sep.join(parts)\<close>.\<close>

fun join :: "pystr \<Rightarrow> pystr list \<Rightarrow> pystr" where
  "join sep [] = []"
| "join sep [p] = p"
| "join sep (p # q # ps) = p @ sep @ join sep (q # ps)"

section \<open>Normalizer\<close>

text \<open>
  \<open>BibDeduplicator.normalize_string\<close> (clean.py).  Its argument is a field of a
  bibliography entry: a string, or \<open>None\<close>.  \<open>if not text\<close> is true of \<open>None\<close> and of
  the empty string.
\<close>

definition normalize_string :: "unicode_tables \<Rightarrow> pystr option \<Rightarrow> pystr" where
  "normalize_string U text =
     (case text of
        None \<Rightarrow> []
      | Some t \<Rightarrow>
          if t = [] then []
          else let t1 = nfkd U (str_lower U t);
                   t2 = del_special U t1;
                   t3 = strip U (sub_space_runs U t2)
               in t3)"

text \<open>
  \<open>CSVDeduplicator.normalize_string\<close> (clean_csv.py) and
  \<open>ExcelDeduplicator.normalize_string\<close> (clean_xlsx.py) have the same body: the argument
  is a cell value, \<open>pd.isna\<close> guards, and \<open>str(text)\<close> converts.
\<close>

definition csv_normalize_string :: "unicode_tables \<Rightarrow> cell \<Rightarrow> pystr" where
  "csv_normalize_string U text =
     (if isna text then []
      else let t0 = py_str text;
               t1 = nfkd U (str_lower U t0);
               t2 = del_special U t1;
               t3 = strip U (sub_space_runs U t2)
           in t3)"

definition xlsx_normalize_string :: "unicode_tables \<Rightarrow> cell \<Rightarrow> pystr" where
  "xlsx_normalize_string U text =
     (if isna text then []
      else let t0 = py_str text;
               t1 = nfkd U (str_lower U t0);
               t2 = del_special U t1;
               t3 = strip U (sub_space_runs U t2)
           in t3)"

text \<open>\<open>Deduplicator.normalize_text\<close> (clean_mf.py).\<close>

definition normalize_text :: "unicode_tables \<Rightarrow> cell \<Rightarrow> pystr" where
  "normalize_text U text =
     (if isna text then []
      else let t0 = str_lower U (py_str text);
               t1 = nfkd U t0;
               t2 = filter (\<lambda>c. \<not> cat_Mn U c) t1;
               t3 = blank_special U t2
           in join [32] (split_ws U t3))"

section \<open>SimilarityScorer: difflib.SequenceMatcher\<close>

definition chain_b_index :: "'a list \<Rightarrow> ('a \<rightharpoonup> nat list)" where
  "chain_b_index b =
     fold (\<lambda>(i, elt) b2j. b2j(elt \<mapsto> (case b2j elt of None \<Rightarrow> [] | Some indices \<Rightarrow> indices) @ [i]))
          (enumerate 0 b) Map.empty"

definition chain_b :: "'a list \<Rightarrow> ('a \<rightharpoonup> nat list) \<times> 'a set \<times> 'a set" where
  "chain_b b =
     (let b2j = chain_b_index b;
          junk = {};
          n = length b
      in if 200 \<le> n
         then let ntest = n div 100 + 1;
                  popular = {elt \<in> set b. case b2j elt of None \<Rightarrow> False | Some idxs \<Rightarrow> ntest < length idxs}
              in ((\<lambda>elt. if elt \<in> popular then None else b2j elt), junk, popular)
         else (b2j, junk, {}))"

fun flm_row ::
  "nat \<Rightarrow> nat \<Rightarrow> nat \<Rightarrow> (nat \<rightharpoonup> nat) \<Rightarrow> nat list \<Rightarrow>
   (nat \<rightharpoonup> nat) \<times> nat \<times> nat \<times> nat \<Rightarrow> (nat \<rightharpoonup> nat) \<times> nat \<times> nat \<times> nat" where
  "flm_row blo bhi i j2len [] st = st"
| "flm_row blo bhi i j2len (j # js) (newj2len, besti, bestj, bestsize) =
     (if j < blo then flm_row blo bhi i j2len js (newj2len, besti, bestj, bestsize)
      else if bhi \<le> j then (newj2len, besti, bestj, bestsize)
      else let k = (if j = 0 then 0 else case j2len (j - 1) of None \<Rightarrow> 0 | Some l \<Rightarrow> l) + 1
           in if bestsize < k
              then flm_row blo bhi i j2len js (newj2len(j \<mapsto> k), Suc i - k, Suc j - k, k)
              else flm_row blo bhi i j2len js (newj2len(j \<mapsto> k), besti, bestj, bestsize))"

fun flm_main ::
  "'a list \<Rightarrow> ('a \<rightharpoonup> nat list) \<Rightarrow> nat \<Rightarrow> nat \<Rightarrow> nat list \<Rightarrow>
   (nat \<rightharpoonup> nat) \<times> nat \<times> nat \<times> nat \<Rightarrow> (nat \<rightharpoonup> nat) \<times> nat \<times> nat \<times> nat" where
  "flm_main a b2j blo bhi [] st = st"
| "flm_main a b2j blo bhi (i # ir) (j2len, best) =
     flm_main a b2j blo bhi ir
       (flm_row blo bhi i j2len (case b2j (a ! i) of None \<Rightarrow> [] | Some js \<Rightarrow> js) (Map.empty, best))"

fun ext_left ::
  "'a list \<Rightarrow> 'a list \<Rightarrow> ('a \<Rightarrow> bool) \<Rightarrow> nat \<Rightarrow> nat \<Rightarrow> nat \<times> nat \<times> nat \<Rightarrow> nat \<times> nat \<times> nat" where
  "ext_left a b ok alo blo (besti, bestj, bestsize) =
     (if alo < besti \<and> blo < bestj \<and> ok (b ! (bestj - 1)) \<and> a ! (besti - 1) = b ! (bestj - 1)
      then ext_left a b ok alo blo (besti - 1, bestj - 1, bestsize + 1)
      else (besti, bestj, bestsize))"

function ext_right ::
  "'a list \<Rightarrow> 'a list \<Rightarrow> ('a \<Rightarrow> bool) \<Rightarrow> nat \<Rightarrow> nat \<Rightarrow> nat \<times> nat \<times> nat \<Rightarrow> nat \<times> nat \<times> nat" where
  "ext_right a b ok ahi bhi (besti, bestj, bestsize) =
     (if besti + bestsize < ahi \<and> bestj + bestsize < bhi \<and> ok (b ! (bestj + bestsize))
         \<and> a ! (besti + bestsize) = b ! (bestj + bestsize)
      then ext_right a b ok ahi bhi (besti, bestj, bestsize + 1)
      else (besti, bestj, bestsize))"
  by pat_completeness auto
termination
  by (relation "measure (\<lambda>(a, b, ok, ahi, bhi, besti, bestj, bestsize). ahi - (besti + bestsize))") auto

declare ext_left.simps [simp del]
declare ext_right.simps [simp del]

definition find_longest_match ::
  "'a list \<Rightarrow> 'a list \<Rightarrow> ('a \<rightharpoonup> nat list) \<Rightarrow> 'a set \<Rightarrow> nat \<Rightarrow> nat \<Rightarrow> nat \<Rightarrow> nat \<Rightarrow> nat \<times> nat \<times> nat" where
  "find_longest_match a b b2j bjunk alo ahi blo bhi =
     (let best0 = snd (flm_main a b2j blo bhi [alo..<ahi] (Map.empty, alo, blo, 0));
          best1 = ext_left a b (\<lambda>x. x \<notin> bjunk) alo blo best0;
          best2 = ext_right a b (\<lambda>x. x \<notin> bjunk) ahi bhi best1;
          best3 = ext_left a b (\<lambda>x. x \<in> bjunk) alo blo best2;
          best4 = ext_right a b (\<lambda>x. x \<in> bjunk) ahi bhi best3
      in best4)"


lemma flm_row_bounds:
  assumes "flm_row blo bhi i j2len js (nj, bi, bj, bs) = (nj', bi', bj', bs')"
    and "\<forall>j l. j2len j = Some l \<longrightarrow> l \<le> i - alo"
    and "alo \<le> i" and "i < ahi"
    and "alo \<le> bi" and "(bs = 0 \<and> bi = alo) \<or> bi + bs \<le> ahi"
    and "\<forall>j l. nj j = Some l \<longrightarrow> l \<le> Suc i - alo"
  shows "(\<forall>j l. nj' j = Some l \<longrightarrow> l \<le> Suc i - alo) \<and> alo \<le> bi'
         \<and> ((bs' = 0 \<and> bi' = alo) \<or> bi' + bs' \<le> ahi)"
  using assms
proof (induction js arbitrary: nj bi bj bs)
  case Nil
  then show ?case by simp
next
  case (Cons j js)
  define k where "k = (if j = 0 then 0 else case j2len (j - 1) of None \<Rightarrow> 0 | Some l \<Rightarrow> l) + 1"
  have "l \<le> i - alo" if "j2len (j - 1) = Some l" for l
    using Cons.prems(2) that by blast
  then have k_le: "k \<le> Suc i - alo"
    using Cons.prems(3) unfolding k_def by (auto split: option.splits simp: Suc_diff_le)
  have k_pos: "0 < k" unfolding k_def by simp
  show ?case
  proof (cases "j < blo")
    case True
    with Cons show ?thesis by simp
  next
    case nlo: False
    show ?thesis
    proof (cases "bhi \<le> j")
      case True
      with nlo Cons.prems show ?thesis by simp
    next
      case False
      have nj_ok: "\<forall>ja l. (nj(j \<mapsto> k)) ja = Some l \<longrightarrow> l \<le> Suc i - alo"
        using Cons.prems(7) k_le by auto
      show ?thesis
      proof (cases "bs < k")
        case True
        have eq: "flm_row blo bhi i j2len js (nj(j \<mapsto> k), Suc i - k, Suc j - k, k) = (nj', bi', bj', bs')"
          using Cons.prems(1) nlo False True by (simp add: k_def Let_def)
        show ?thesis
          by (rule Cons.IH[OF eq Cons.prems(2,3,4) _ _ nj_ok])
             (use k_le k_pos Cons.prems(3,4) in auto)
      next
        case nb: False
        have eq: "flm_row blo bhi i j2len js (nj(j \<mapsto> k), bi, bj, bs) = (nj', bi', bj', bs')"
          using Cons.prems(1) nlo False nb by (simp add: k_def Let_def)
        show ?thesis
          by (rule Cons.IH[OF eq Cons.prems(2,3,4,5,6) nj_ok])
      qed
    qed
  qed
qed

lemma flm_main_bounds:
  assumes "flm_main a b2j blo bhi [i0..<ahi] (j2len, bi, bj, bs) = (j2len', bi', bj', bs')"
    and "alo \<le> i0"
    and "\<forall>j l. j2len j = Some l \<longrightarrow> l \<le> i0 - alo"
    and "alo \<le> bi" and "(bs = 0 \<and> bi = alo) \<or> bi + bs \<le> ahi"
  shows "alo \<le> bi' \<and> ((bs' = 0 \<and> bi' = alo) \<or> bi' + bs' \<le> ahi)"
  using assms
proof (induction "ahi - i0" arbitrary: i0 j2len bi bj bs)
  case 0
  then show ?case by simp
next
  case (Suc n)
  then have lt: "i0 < ahi" by simp
  obtain nj ci cj cs where row:
    "flm_row blo bhi i0 j2len (case b2j (a ! i0) of None \<Rightarrow> [] | Some js \<Rightarrow> js) (Map.empty, bi, bj, bs)
       = (nj, ci, cj, cs)"
    by (metis prod_cases4)
  have step: "flm_main a b2j blo bhi [Suc i0..<ahi] (nj, ci, cj, cs) = (j2len', bi', bj', bs')"
    using Suc.prems(1) lt row by (simp add: upt_rec[of i0 ahi])
  have r: "(\<forall>j l. nj j = Some l \<longrightarrow> l \<le> Suc i0 - alo) \<and> alo \<le> ci
         \<and> ((cs = 0 \<and> ci = alo) \<or> ci + cs \<le> ahi)"
    by (rule flm_row_bounds[OF row Suc.prems(3,2) lt Suc.prems(4,5)]) simp
  have n: "n = ahi - Suc i0" using Suc.hyps(2) by simp
  show ?case
    by (rule Suc.hyps(1)[OF n step]) (use r Suc.prems(2) in auto)
qed

lemma ext_left_bounds:
  "ext_left a b ok alo blo (bi, bj, bs) = (bi', bj', bs') \<Longrightarrow> alo \<le> bi \<Longrightarrow>
     alo \<le> bi' \<and> bi' + bs' = bi + bs \<and> bs \<le> bs' \<and> (bi = alo \<longrightarrow> bs' = bs)"
proof (induction a b ok alo blo "(bi, bj, bs)" arbitrary: bi bj bs rule: ext_left.induct)
  case (1 a b ok alo blo besti bestj bestsize)
  show ?case
  proof (cases "alo < besti \<and> blo < bestj \<and> ok (b ! (bestj - 1)) \<and> a ! (besti - 1) = b ! (bestj - 1)")
    case True
    then have "ext_left a b ok alo blo (besti - 1, bestj - 1, bestsize + 1) = (bi', bj', bs')"
      using "1.prems"(1) by (simp add: ext_left.simps[of a b ok alo blo besti])
    moreover have "alo \<le> besti - 1" using True by linarith
    ultimately have "alo \<le> bi' \<and> bi' + bs' = besti - 1 + (bestsize + 1) \<and> bestsize + 1 \<le> bs'
         \<and> (besti - 1 = alo \<longrightarrow> bs' = bestsize + 1)"
      by (rule "1.hyps"[OF True])
    with True show ?thesis by auto
  next
    case False
    have "ext_left a b ok alo blo (besti, bestj, bestsize) = (besti, bestj, bestsize)"
      by (subst ext_left.simps, subst if_not_P, rule False, rule refl)
    then show ?thesis using "1.prems" by simp
  qed
qed

lemma ext_right_bounds:
  "ext_right a b ok ahi bhi (bi, bj, bs) = (bi', bj', bs') \<Longrightarrow>
     bi' = bi \<and> bs \<le> bs' \<and> (bs' = bs \<or> bi' + bs' \<le> ahi)"
proof (induction a b ok ahi bhi "(bi, bj, bs)" arbitrary: bi bj bs rule: ext_right.induct)
  case (1 a b ok ahi bhi besti bestj bestsize)
  show ?case
  proof (cases "besti + bestsize < ahi \<and> bestj + bestsize < bhi \<and> ok (b ! (bestj + bestsize))
         \<and> a ! (besti + bestsize) = b ! (bestj + bestsize)")
    case True
    then have "ext_right a b ok ahi bhi (besti, bestj, bestsize + 1) = (bi', bj', bs')"
      using "1.prems"(1) by (simp add: ext_right.simps[of a b ok ahi bhi besti])
    then have "bi' = besti \<and> bestsize + 1 \<le> bs' \<and> (bs' = bestsize + 1 \<or> bi' + bs' \<le> ahi)"
      by (rule "1.hyps"[OF True])
    with True show ?thesis by auto
  next
    case False
    have "ext_right a b ok ahi bhi (besti, bestj, bestsize) = (besti, bestj, bestsize)"
      by (subst ext_right.simps, subst if_not_P, rule False, rule refl)
    then show ?thesis using "1.prems" by simp
  qed
qed

lemma find_longest_match_bounds:
  assumes "find_longest_match a b b2j bjunk alo ahi blo bhi = (i, j, k)"
  shows "alo \<le> i \<and> (k = 0 \<or> i + k \<le> ahi)"
proof -
  obtain m0 i0 j0 k0 where m: "flm_main a b2j blo bhi [alo..<ahi] (Map.empty, alo, blo, 0) = (m0, i0, j0, k0)"
    by (metis prod_cases4)
  obtain i1 j1 k1 where e1: "ext_left a b (\<lambda>x. x \<notin> bjunk) alo blo (i0, j0, k0) = (i1, j1, k1)"
    by (metis prod_cases3)
  obtain i2 j2 k2 where e2: "ext_right a b (\<lambda>x. x \<notin> bjunk) ahi bhi (i1, j1, k1) = (i2, j2, k2)"
    by (metis prod_cases3)
  obtain i3 j3 k3 where e3: "ext_left a b (\<lambda>x. x \<in> bjunk) alo blo (i2, j2, k2) = (i3, j3, k3)"
    by (metis prod_cases3)
  obtain i4 j4 k4 where e4: "ext_right a b (\<lambda>x. x \<in> bjunk) ahi bhi (i3, j3, k3) = (i4, j4, k4)"
    by (metis prod_cases3)
  have res: "(i, j, k) = (i4, j4, k4)"
    using assms m e1 e2 e3 e4 by (simp add: find_longest_match_def)
  have b0: "alo \<le> i0 \<and> ((k0 = 0 \<and> i0 = alo) \<or> i0 + k0 \<le> ahi)"
    by (rule flm_main_bounds[OF m]) auto
  have b1: "alo \<le> i1 \<and> ((k1 = 0 \<and> i1 = alo) \<or> i1 + k1 \<le> ahi)"
    using ext_left_bounds[OF e1] b0 by auto
  have b2: "alo \<le> i2 \<and> ((k2 = 0 \<and> i2 = alo) \<or> i2 + k2 \<le> ahi)"
    using ext_right_bounds[OF e2] b1 by auto
  have b3: "alo \<le> i3 \<and> ((k3 = 0 \<and> i3 = alo) \<or> i3 + k3 \<le> ahi)"
    using ext_left_bounds[OF e3] b2 by auto
  have b4: "alo \<le> i4 \<and> ((k4 = 0 \<and> i4 = alo) \<or> i4 + k4 \<le> ahi)"
    using ext_right_bounds[OF e4] b3 by auto
  from res b4 show ?thesis by auto
qed


function mb_loop ::
  "'a list \<Rightarrow> 'a list \<Rightarrow> ('a \<rightharpoonup> nat list) \<Rightarrow> 'a set \<Rightarrow>
   (nat \<times> nat \<times> nat \<times> nat) list \<Rightarrow> (nat \<times> nat \<times> nat) list \<Rightarrow> (nat \<times> nat \<times> nat) list" where
  "mb_loop a b b2j bjunk [] matching_blocks = matching_blocks"
| "mb_loop a b b2j bjunk ((alo, ahi, blo, bhi) # queue) matching_blocks =
     (case find_longest_match a b b2j bjunk alo ahi blo bhi of
        (i, j, k) \<Rightarrow>
          if k \<noteq> 0
          then let queue1 = (if alo < i \<and> blo < j then (alo, i, blo, j) # queue else queue);
                   queue2 = (if i + k < ahi \<and> j + k < bhi then (i + k, ahi, j + k, bhi) # queue1
                             else queue1)
               in mb_loop a b b2j bjunk queue2 (matching_blocks @ [(i, j, k)])
          else mb_loop a b b2j bjunk queue matching_blocks)"
  by pat_completeness auto
termination
  apply (relation "measure (\<lambda>(a, b, b2j, bjunk, queue, blocks).
          sum_list (map (\<lambda>(alo, ahi, blo, bhi). Suc (2 * (ahi - alo))) queue))")
    apply simp
   apply (auto dest: find_longest_match_bounds[OF sym] find_longest_match_bounds)
  done

declare mb_loop.simps [simp del]

fun collapse_adjacent ::
  "(nat \<times> nat \<times> nat) list \<Rightarrow> nat \<times> nat \<times> nat \<Rightarrow> (nat \<times> nat \<times> nat) list \<Rightarrow> (nat \<times> nat \<times> nat) list" where
  "collapse_adjacent [] (i1, j1, k1) non_adjacent =
     (if k1 \<noteq> 0 then non_adjacent @ [(i1, j1, k1)] else non_adjacent)"
| "collapse_adjacent ((i2, j2, k2) # blocks) (i1, j1, k1) non_adjacent =
     (if i1 + k1 = i2 \<and> j1 + k1 = j2
      then collapse_adjacent blocks (i1, j1, k1 + k2) non_adjacent
      else collapse_adjacent blocks (i2, j2, k2)
             (if k1 \<noteq> 0 then non_adjacent @ [(i1, j1, k1)] else non_adjacent))"

definition get_matching_blocks :: "'a list \<Rightarrow> 'a list \<Rightarrow> (nat \<times> nat \<times> nat) list" where
  "get_matching_blocks a b =
     (case chain_b b of
        (b2j, bjunk, bpopular) \<Rightarrow>
          let la = length a;
              lb = length b;
              matching_blocks = mb_loop a b b2j bjunk [(0, la, 0, lb)] [];
              non_adjacent = collapse_adjacent (sort matching_blocks) (0, 0, 0) []
          in non_adjacent @ [(la, lb, 0)])"

definition calculate_ratio :: "nat \<Rightarrow> nat \<Rightarrow> rat" where
  "calculate_ratio matches len = (if len \<noteq> 0 then 2 * of_nat matches / of_nat len else 1)"

definition ratio :: "'a list \<Rightarrow> 'a list \<Rightarrow> rat" where
  "ratio a b =
     (let matches = sum_list (map (\<lambda>(i, j, k). k) (get_matching_blocks a b))
      in calculate_ratio matches (length a + length b))"

definition calculate_similarity :: "pystr \<Rightarrow> pystr \<Rightarrow> rat" where
  "calculate_similarity str1 str2 = ratio str1 str2"


section \<open>FuzzyMatcher and ExactKeyMatcher (clean.py)\<close>

text \<open>
  A bibliography entry is a dictionary from field names to strings.
  \<open>dict_get e k d\<close> is \<open>e.get(k, d)\<close>; \<open>e k\<close> is \<open>e.get(k)\<close>, with \<open>None\<close> for a missing key.
\<close>

type_synonym entry = "string \<rightharpoonup> pystr"

definition dict_get :: "entry \<Rightarrow> string \<Rightarrow> pystr \<Rightarrow> pystr" where
  "dict_get e k d = (case e k of None \<Rightarrow> d | Some v \<Rightarrow> v)"

text \<open>
  \<open>truthy (e k)\<close> is the truth value Python gives \<open>e.get(k)\<close>: false for a missing
  field and for the empty string.
\<close>

definition truthy :: "pystr option \<Rightarrow> bool" where
  "truthy v = (case v of None \<Rightarrow> False | Some s \<Rightarrow> s \<noteq> [])"

text \<open>
  \<open>BibDeduplicator.are_entries_similar\<close>.  The second component of the result lists the
  argument pairs handed to \<open>calculate_similarity\<close>, in call order, so that a statement can
  say which scores were computed.  The scores \<open>2.0 * M / T\<close> and the thresholds are
  modelled as rationals; a float comparison \<open>2.0 * M / T > 0.95\<close> (or \<open>> 0.8\<close>) agrees with
  the rational one for all strings of fewer than \<open>2^40\<close> characters.
\<close>

definition are_entries_similar_run ::
  "unicode_tables \<Rightarrow> entry \<Rightarrow> entry \<Rightarrow> rat \<Rightarrow> rat \<Rightarrow> bool \<times> (pystr \<times> pystr) list" where
  "are_entries_similar_run U entry1 entry2 title_threshold author_threshold =
     (let title1 = normalize_string U (Some (dict_get entry1 ''title'' []));
          title2 = normalize_string U (Some (dict_get entry2 ''title'' []));
          title_similarity = calculate_similarity title1 title2;
          calls = [(title1, title2)]
      in if title_threshold < title_similarity
         then let authors1 = normalize_string U (Some (dict_get entry1 ''author'' []));
                  authors2 = normalize_string U (Some (dict_get entry2 ''author'' []));
                  author_similarity = calculate_similarity authors1 authors2
              in (author_threshold < author_similarity, calls @ [(authors1, authors2)])
         else (False, calls))"

definition are_entries_similar ::
  "unicode_tables \<Rightarrow> entry \<Rightarrow> entry \<Rightarrow> rat \<Rightarrow> rat \<Rightarrow> bool" where
  "are_entries_similar U entry1 entry2 title_threshold author_threshold =
     fst (are_entries_similar_run U entry1 entry2 title_threshold author_threshold)"

text \<open>
  \<open>BibDeduplicator.check_doi_duplicates\<close>.  The Python returns pairs of entry objects and
  the caller tells entries apart by object identity (\<open>id\<close>); the entries of \<open>all_entries\<close>
  are distinct objects, so an entry is identified here by its position in the list.
  \<open>if doi\<close> is true of a present, non-empty string.
\<close>

fun check_doi_loop ::
  "unicode_tables \<Rightarrow> (nat \<times> entry) list \<Rightarrow> (pystr \<rightharpoonup> nat) \<Rightarrow> (nat \<times> nat) list \<Rightarrow> (nat \<times> nat) list" where
  "check_doi_loop U [] doi_map duplicates = duplicates"
| "check_doi_loop U ((n, e) # entries) doi_map duplicates =
     (case e ''doi'' of
        None \<Rightarrow> check_doi_loop U entries doi_map duplicates
      | Some doi \<Rightarrow>
          if doi = [] then check_doi_loop U entries doi_map duplicates
          else let doi' = strip U (str_lower U doi)
               in (case doi_map doi' of
                     Some original \<Rightarrow> check_doi_loop U entries doi_map (duplicates @ [(original, n)])
                   | None \<Rightarrow> check_doi_loop U entries (doi_map(doi' \<mapsto> n)) duplicates))"

definition check_doi_duplicates :: "unicode_tables \<Rightarrow> entry list \<Rightarrow> (nat \<times> nat) list" where
  "check_doi_duplicates U entries = check_doi_loop U (enumerate 0 entries) Map.empty []"

section \<open>DuplicateDetector (clean.py)\<close>

text \<open>
  One call of \<open>log_duplicate\<close> appends one report to the duplicates file: the matching
  pass, the original and the duplicate.  The state of a run is the set \<open>removed_entries\<close>,
  the counter and the file.
\<close>

datatype report = Report (found_by: string) (original: nat) (duplicate: nat)

record dedup_state =
  removed_entries :: "nat set"
  duplicates_count :: nat
  duplicate_file :: "report list"

definition log_duplicate :: "nat \<Rightarrow> nat \<Rightarrow> string \<Rightarrow> dedup_state \<Rightarrow> dedup_state" where
  "log_duplicate original_entry duplicate_entry found s =
     s\<lparr>duplicate_file := duplicate_file s @ [Report found original_entry duplicate_entry]\<rparr>"

definition doi_step :: "nat \<times> nat \<Rightarrow> dedup_state \<Rightarrow> dedup_state" where
  "doi_step p s =
     (case p of (original_entry, duplicate_entry) \<Rightarrow>
        log_duplicate original_entry duplicate_entry ''DOI match''
          (s\<lparr>duplicates_count := duplicates_count s + 1,
             removed_entries := insert duplicate_entry (removed_entries s)\<rparr>))"

definition similarity_step :: "unicode_tables \<Rightarrow> entry list \<Rightarrow> nat \<Rightarrow> nat \<Rightarrow> dedup_state \<Rightarrow> dedup_state" where
  "similarity_step U all_entries i j s =
     (if j \<in> removed_entries s then s
      else if are_entries_similar U (all_entries ! i) (all_entries ! j) (95 / 100) (8 / 10)
      then log_duplicate i j ''Title/Author similarity''
             (s\<lparr>duplicates_count := duplicates_count s + 1,
                removed_entries := insert j (removed_entries s)\<rparr>)
      else s)"

definition similarity_row :: "unicode_tables \<Rightarrow> entry list \<Rightarrow> nat \<Rightarrow> dedup_state \<Rightarrow> dedup_state" where
  "similarity_row U all_entries i s =
     (if i \<in> removed_entries s then s
      else fold (similarity_step U all_entries i) [i + 1..<length all_entries] s)"

text \<open>
  \<open>BibDeduplicator.deduplicate_entries\<close>, from the point where the input files have been
  read into \<open>all_entries\<close>.  \<open>file0\<close> is the content of the duplicates file when the run
  starts.  \<open>dedup_run\<close> is the state after both passes, \<open>unique_indices\<close> the positions
  kept, and \<open>deduplicate_entries\<close> the list returned.
\<close>

definition dedup_run :: "unicode_tables \<Rightarrow> entry list \<Rightarrow> report list \<Rightarrow> dedup_state" where
  "dedup_run U all_entries file0 =
     (let s0 = \<lparr>removed_entries = {}, duplicates_count = 0, duplicate_file = file0\<rparr>;
          doi_duplicates = check_doi_duplicates U all_entries;
          s1 = fold doi_step doi_duplicates s0;
          s2 = fold (similarity_row U all_entries) [0..<length all_entries] s1
      in s2)"

definition unique_indices :: "unicode_tables \<Rightarrow> entry list \<Rightarrow> report list \<Rightarrow> nat list" where
  "unique_indices U all_entries file0 =
     filter (\<lambda>n. n \<notin> removed_entries (dedup_run U all_entries file0)) [0..<length all_entries]"

definition deduplicate_entries :: "unicode_tables \<Rightarrow> entry list \<Rightarrow> report list \<Rightarrow> entry list" where
  "deduplicate_entries U all_entries file0 =
     map (\<lambda>n. all_entries ! n) (unique_indices U all_entries file0)"

section \<open>Pairwise test of clean_mf.py\<close>

text \<open>\<open>Deduplicator.are_duplicates\<close>.\<close>

definition are_duplicates :: "unicode_tables \<Rightarrow> entry \<Rightarrow> entry \<Rightarrow> bool" where
  "are_duplicates U entry1 entry2 =
     (if truthy (entry1 ''doi'') \<and> truthy (entry2 ''doi'')
         \<and> strip U (dict_get entry1 ''doi'' []) = strip U (dict_get entry2 ''doi'' [])
      then True
      else let title1 = normalize_text U (CStr (dict_get entry1 ''title'' []));
               title2 = normalize_text U (CStr (dict_get entry2 ''title'' []))
           in title1 \<noteq> [] \<and> title2 \<noteq> [] \<and> title1 = title2)"

section \<open>GroupKeyMatcher (clean_csv.py, clean_xlsx.py)\<close>

text \<open>
  A row is a dictionary from column names to cell values.
  \<open>CSVDeduplicator.generate_comparison_key\<close> passes \<open>str(row[col])\<close> to the normalizer;
  \<open>ExcelDeduplicator.generate_comparison_key\<close> passes \<open>row[col]\<close>.  The list \<open>key_parts\<close>
  that the loop builds is a function of its own.
\<close>

type_synonym row = "string \<rightharpoonup> cell"

definition csv_key_parts :: "unicode_tables \<Rightarrow> string list \<Rightarrow> row \<Rightarrow> pystr list" where
  "csv_key_parts U comparison_columns r =
     map (\<lambda>col. case r col of
                    Some v \<Rightarrow> csv_normalize_string U (CStr (py_str v))
                  | None \<Rightarrow> [])
         comparison_columns"

definition csv_generate_comparison_key :: "unicode_tables \<Rightarrow> string list \<Rightarrow> row \<Rightarrow> pystr" where
  "csv_generate_comparison_key U comparison_columns r =
     join (lit ''_'') (csv_key_parts U comparison_columns r)"

definition xlsx_key_parts :: "unicode_tables \<Rightarrow> string list \<Rightarrow> row \<Rightarrow> pystr list" where
  "xlsx_key_parts U comparison_columns r =
     map (\<lambda>col. case r col of
                    Some v \<Rightarrow> xlsx_normalize_string U v
                  | None \<Rightarrow> [])
         comparison_columns"

definition xlsx_generate_comparison_key :: "unicode_tables \<Rightarrow> string list \<Rightarrow> row \<Rightarrow> pystr" where
  "xlsx_generate_comparison_key U comparison_columns r =
     join (lit ''_'') (xlsx_key_parts U comparison_columns r)"





section \<open>Evaluations shared by the examples\<close>


lemma sim_ab_cd: "calculate_similarity (lit ''ab'') (lit ''cd'') = 0"
  by code_simp

lemma sim_ab_ab: "calculate_similarity (lit ''ab'') (lit ''ab'') = 1"
  by code_simp

lemma sim_x_x: "calculate_similarity (lit ''x'') (lit ''x'') = 1"
  by code_simp

lemma norm_ab: "normalize_string unicode_excerpt (Some (lit ''Ab'')) = lit ''ab''"
  by code_simp

lemma norm_ab': "normalize_string unicode_excerpt (Some (lit ''ab'')) = lit ''ab''"
  by code_simp

lemma norm_cd: "normalize_string unicode_excerpt (Some (lit ''c,d'')) = lit ''cd''"
  by code_simp

lemma norm_x: "normalize_string unicode_excerpt (Some (lit ''X.'')) = lit ''x''"
  by code_simp

lemma norm_x': "normalize_string unicode_excerpt (Some (lit ''x'')) = lit ''x''"
  by code_simp

lemma sim_empty: "calculate_similarity [] [] = 1"
  by code_simp

lemma norm_empty: "normalize_string U (Some []) = []"
  by (simp add: normalize_string_def)

text \<open>
  Claim C3.  Two entries are reported similar exactly when the similarity of their
  normalized titles is strictly greater than the title threshold and the similarity of
  their normalized authors is strictly greater than the author threshold.  When the title
  score does not exceed its threshold the result is no-match and the scorer has been called
  once, on the titles only; otherwise it is called a second time, on the authors.
  (\<open>similarity_step\<close> calls with the defaults 0.95 and 0.8.)
\<close>

theorem fuzzy_and_semantics:
  "(let title1 = normalize_string U (Some (dict_get e1 ''title'' []));
        title2 = normalize_string U (Some (dict_get e2 ''title'' []));
        authors1 = normalize_string U (Some (dict_get e1 ''author'' []));
        authors2 = normalize_string U (Some (dict_get e2 ''author'' []))
    in (are_entries_similar U e1 e2 tt au
          \<longleftrightarrow> tt < calculate_similarity title1 title2 \<and> au < calculate_similarity authors1 authors2)
       \<and> (\<not> tt < calculate_similarity title1 title2 \<longrightarrow>
            are_entries_similar_run U e1 e2 tt au = (False, [(title1, title2)]))
       \<and> (tt < calculate_similarity title1 title2 \<longrightarrow>
            snd (are_entries_similar_run U e1 e2 tt au) = [(title1, title2), (authors1, authors2)]))"
  by (simp add: are_entries_similar_def are_entries_similar_run_def Let_def)

theorem fuzzy_and_semantics_witness:
  "\<not> (95 / 100 < calculate_similarity (lit ''ab'') (lit ''cd''))
   \<and> are_entries_similar_run unicode_excerpt
        [''title'' \<mapsto> lit ''Ab'', ''author'' \<mapsto> lit ''x'']
        [''title'' \<mapsto> lit ''c,d'', ''author'' \<mapsto> lit ''x''] (95 / 100) (8 / 10)
       = (False, [(lit ''ab'', lit ''cd'')])
   \<and> 95 / 100 < calculate_similarity (lit ''ab'') (lit ''ab'')
   \<and> are_entries_similar_run unicode_excerpt
        [''title'' \<mapsto> lit ''Ab'', ''author'' \<mapsto> lit ''X.'']
        [''title'' \<mapsto> lit ''ab'', ''author'' \<mapsto> lit ''x''] (95 / 100) (8 / 10)
       = (True, [(lit ''ab'', lit ''ab''), (lit ''x'', lit ''x'')])"
  using fuzzy_and_semantics[of unicode_excerpt "[''title'' \<mapsto> lit ''Ab'', ''author'' \<mapsto> lit ''x'']"
          "[''title'' \<mapsto> lit ''c,d'', ''author'' \<mapsto> lit ''x'']" "95 / 100" "8 / 10"]
        fuzzy_and_semantics[of unicode_excerpt "[''title'' \<mapsto> lit ''Ab'', ''author'' \<mapsto> lit ''X.'']"
          "[''title'' \<mapsto> lit ''ab'', ''author'' \<mapsto> lit ''x'']" "95 / 100" "8 / 10"]
  by (simp add: Let_def dict_get_def norm_ab norm_ab' norm_cd norm_x norm_x' sim_ab_cd sim_ab_ab sim_x_x
        are_entries_similar_def prod_eq_iff)

lemma check_doi_loop_no_doi:
  "\<forall>(n, e) \<in> set xs. \<not> truthy (e ''doi'') \<Longrightarrow> check_doi_loop U xs m d = d"
  by (induction xs arbitrary: m d) (auto simp: truthy_def split: option.splits)

text \<open>
  Claim C10.  Two entries whose title and author fields are all missing or empty are
  reported similar under the default thresholds; if neither has a DOI, the detector run on
  the two of them reports the second as a title/author duplicate of the first and keeps
  only the first.
\<close>

theorem empty_fields_fuzzy_match:
  assumes "\<not> truthy (e1 ''title'')" and "\<not> truthy (e2 ''title'')"
    and "\<not> truthy (e1 ''author'')" and "\<not> truthy (e2 ''author'')"
  shows "are_entries_similar U e1 e2 (95 / 100) (8 / 10)
     \<and> (\<not> truthy (e1 ''doi'') \<and> \<not> truthy (e2 ''doi'') \<longrightarrow>
          duplicate_file (dedup_run U [e1, e2] file0) = file0 @ [Report ''Title/Author similarity'' 0 1]
          \<and> unique_indices U [e1, e2] file0 = [0])"
proof -
  have n: "normalize_string U (Some (dict_get e ''title'' [])) = []"
          "normalize_string U (Some (dict_get e ''author'' [])) = []"
    if "\<not> truthy (e ''title'')" "\<not> truthy (e ''author'')" for e
    using that by (auto simp: truthy_def dict_get_def normalize_string_def split: option.splits)
  have sim: "are_entries_similar U e1 e2 (95 / 100) (8 / 10)"
    using assms by (simp add: are_entries_similar_def are_entries_similar_run_def n sim_empty)
  have "duplicate_file (dedup_run U [e1, e2] file0) = file0 @ [Report ''Title/Author similarity'' 0 1]
          \<and> unique_indices U [e1, e2] file0 = [0]"
    if d: "\<not> truthy (e1 ''doi'')" "\<not> truthy (e2 ''doi'')"
  proof -
    have doi: "check_doi_duplicates U [e1, e2] = []"
      unfolding check_doi_duplicates_def using d by (intro check_doi_loop_no_doi) simp
    have up: "[0..<length [e1, e2]] = [0, 1]" "[0 + 1..<length [e1, e2]] = [1]"
             "[1 + 1..<length [e1, e2]] = []"
      by (simp_all add: upt_rec)
    have run: "dedup_run U [e1, e2] file0
        = \<lparr>removed_entries = {1}, duplicates_count = 1,
            duplicate_file = file0 @ [Report ''Title/Author similarity'' 0 1]\<rparr>"
      unfolding dedup_run_def Let_def doi up
      using sim by (simp add: similarity_row_def similarity_step_def log_duplicate_def up)
    show ?thesis
      unfolding unique_indices_def run by (simp add: upt_rec)
  qed
  with sim show ?thesis by blast
qed

theorem empty_fields_fuzzy_match_witness:
  "are_entries_similar unicode_excerpt Map.empty [''title'' \<mapsto> []] (95 / 100) (8 / 10)
   \<and> duplicate_file (dedup_run unicode_excerpt [Map.empty, [''title'' \<mapsto> []]] [])
        = [Report ''Title/Author similarity'' 0 1]
   \<and> unique_indices unicode_excerpt [Map.empty, [''title'' \<mapsto> []]] [] = [0]"
  using empty_fields_fuzzy_match[of Map.empty "[''title'' \<mapsto> []]" unicode_excerpt "[]"]
  by (simp add: truthy_def)

text \<open>
  Claim C8.  In clean_csv.py a NaN cell of a comparison column contributes the segment
  \<open>nan\<close>, not the empty string: \<open>generate_comparison_key\<close> applies \<open>str\<close> before the
  normalizer's \<open>pd.isna\<close> test can see the value.  clean_xlsx.py, which passes the cell
  itself, yields the empty segment; a missing column yields the empty segment in both.
\<close>

theorem csv_nan_segment:
  "csv_generate_comparison_key unicode_excerpt [''Item Title'', ''Authors''] [''Item Title'' \<mapsto> CNaN]
     = lit ''nan_''
   \<and> xlsx_generate_comparison_key unicode_excerpt [''Item Title'', ''Authors''] [''Item Title'' \<mapsto> CNaN]
     = lit ''_''"
  by code_simp

section \<open>Re-running the detector\<close>










section \<open>The exact-key pass, characterised\<close>

text \<open>
  \<open>doi_key U e\<close> is the key under which \<open>check_doi_duplicates\<close> files entry \<open>e\<close>:
  none when the field is missing or empty, else the lowercased, stripped field.
  \<open>first_with U es k n\<close>: position \<open>n\<close> is the first of \<open>es\<close> whose key is \<open>k\<close>.
\<close>

definition doi_key :: "unicode_tables \<Rightarrow> entry \<Rightarrow> pystr option" where
  "doi_key U e =
     (case e ''doi'' of
        None \<Rightarrow> None
      | Some doi \<Rightarrow> if doi = [] then None else Some (strip U (str_lower U doi)))"

definition first_with :: "unicode_tables \<Rightarrow> entry list \<Rightarrow> pystr \<Rightarrow> nat \<Rightarrow> bool" where
  "first_with U es k n =
     (n < length es \<and> doi_key U (es ! n) = Some k \<and> (\<forall>m < n. doi_key U (es ! m) \<noteq> Some k))"

lemma first_with_unique: "first_with U es k n \<Longrightarrow> first_with U es k n' \<Longrightarrow> n = n'"
  unfolding first_with_def by (metis nat_neq_iff)

lemma first_with_exists:
  assumes "n < length es" and "doi_key U (es ! n) = Some k"
  shows "\<exists>m \<le> n. first_with U es k m"
proof -
  define l where "l = (LEAST m. doi_key U (es ! m) = Some k)"
  have 1: "doi_key U (es ! l) = Some k"
    unfolding l_def using assms(2) by (rule LeastI)
  have 2: "l \<le> n"
    unfolding l_def using assms(2) by (rule Least_le)
  have 3: "doi_key U (es ! m) \<noteq> Some k" if "m < l" for m
    using that not_less_Least unfolding l_def by blast
  from 1 2 3 assms(1) show ?thesis
    unfolding first_with_def by (intro exI[of _ l]) auto
qed

lemma check_doi_loop_step:
  "check_doi_loop U ((n, e) # xs) m d =
     (case doi_key U e of
        None \<Rightarrow> check_doi_loop U xs m d
      | Some k \<Rightarrow>
          (case m k of
             Some orig \<Rightarrow> check_doi_loop U xs m (d @ [(orig, n)])
           | None \<Rightarrow> check_doi_loop U xs (m(k \<mapsto> n)) d))"
  by (simp add: doi_key_def Let_def split: option.splits)

lemma check_doi_loop_set:
  assumes "i \<le> length es"
    and "\<And>k n. m k = Some n \<longleftrightarrow> n < i \<and> first_with U es k n"
  shows "set (check_doi_loop U (enumerate i (drop i es)) m d)
     = set d \<union> {(orig, n). i \<le> n \<and> n < length es \<and> orig < n
                  \<and> (\<exists>k. doi_key U (es ! n) = Some k \<and> first_with U es k orig)}"
  using assms
proof (induction "length es - i" arbitrary: i m d)
  case 0
  then have "i = length es" by simp
  then show ?case by auto
next
  case (Suc l)
  then have lt: "i < length es" by simp
  have unfold: "enumerate i (drop i es) = (i, es ! i) # enumerate (Suc i) (drop (Suc i) es)"
    using lt by (simp add: Cons_nth_drop_Suc[symmetric])
  have l: "l = length es - Suc i" using Suc.hyps(2) by simp
  have le: "Suc i \<le> length es" using lt by simp
  let ?S = "\<lambda>i. {(orig, n). i \<le> n \<and> n < length es \<and> orig < n
                  \<and> (\<exists>k. doi_key U (es ! n) = Some k \<and> first_with U es k orig)}"
  have split: "?S i = {(orig, n). n = i \<and> orig < i
                  \<and> (\<exists>k. doi_key U (es ! i) = Some k \<and> first_with U es k orig)} \<union> ?S (Suc i)"
    using lt by (auto simp: le_Suc_eq Suc_le_eq)
  show ?case
  proof (cases "doi_key U (es ! i)")
    case None
    have inv: "m k = Some n \<longleftrightarrow> n < Suc i \<and> first_with U es k n" for k n
      using Suc.prems(2)[of k n] None by (auto simp: less_Suc_eq first_with_def)
    have "set (check_doi_loop U (enumerate i (drop i es)) m d)
        = set (check_doi_loop U (enumerate (Suc i) (drop (Suc i) es)) m d)"
      by (simp add: unfold check_doi_loop_step None del: check_doi_loop.simps)
    also have "\<dots> = set d \<union> ?S (Suc i)"
      by (rule Suc.hyps(1)[OF l le inv])
    also have "\<dots> = set d \<union> ?S i"
      unfolding split using None by auto
    finally show ?thesis .
  next
    case (Some k)
    show ?thesis
    proof (cases "m k")
      case (Some orig)
      note mk = this
      from Suc.prems(2)[of k orig] mk have orig: "orig < i" "first_with U es k orig" by auto
      have inv: "m k' = Some n \<longleftrightarrow> n < Suc i \<and> first_with U es k' n" for k' n
      proof (cases "n = i")
        case True
        have "\<not> first_with U es k' i"
        proof
          assume f: "first_with U es k' i"
          then have "k' = k" using \<open>doi_key U (es ! i) = Some k\<close> by (simp add: first_with_def)
          with f orig show False using first_with_unique by blast
        qed
        moreover have "m k' \<noteq> Some i" using Suc.prems(2)[of k' i] by simp
        ultimately show ?thesis using True by simp
      next
        case False
        then show ?thesis using Suc.prems(2)[of k' n] by (auto simp: less_Suc_eq)
      qed
      have here: "{(o', n). n = i \<and> o' < i
                  \<and> (\<exists>k. doi_key U (es ! i) = Some k \<and> first_with U es k o')} = {(orig, i)}"
        using orig \<open>doi_key U (es ! i) = Some k\<close> first_with_unique by auto
      have "set (check_doi_loop U (enumerate i (drop i es)) m d)
          = set (check_doi_loop U (enumerate (Suc i) (drop (Suc i) es)) m (d @ [(orig, i)]))"
        by (simp add: unfold check_doi_loop_step \<open>doi_key U (es ! i) = Some k\<close> mk del: check_doi_loop.simps)
      also have "\<dots> = set (d @ [(orig, i)]) \<union> ?S (Suc i)"
        by (rule Suc.hyps(1)[OF l le inv])
      also have "\<dots> = set d \<union> ?S i"
        unfolding split here by auto
      finally show ?thesis .
    next
      case None
      note mk = this
      have nofirst: "\<not> (n < i \<and> first_with U es k n)" for n
        using Suc.prems(2)[of k n] mk by simp
      have noidx: "doi_key U (es ! n) \<noteq> Some k" if "n < i" for n
      proof
        assume a: "doi_key U (es ! n) = Some k"
        from that lt have "n < length es" by simp
        from first_with_exists[OF this a] obtain f where "f \<le> n" "first_with U es k f" by blast
        with that nofirst[of f] show False by simp
      qed
      have fi: "first_with U es k i"
        using lt \<open>doi_key U (es ! i) = Some k\<close> noidx by (simp add: first_with_def)
      have inv: "(m(k \<mapsto> i)) k' = Some n \<longleftrightarrow> n < Suc i \<and> first_with U es k' n" for k' n
      proof (cases "k' = k")
        case True
        show ?thesis
          using fi first_with_unique[OF fi, of n] nofirst[of n]
          by (auto simp: True less_Suc_eq)
      next
        case False
        have "\<not> first_with U es k' i"
          using False \<open>doi_key U (es ! i) = Some k\<close> by (simp add: first_with_def)
        then show ?thesis
          using False Suc.prems(2)[of k' n] by (auto simp: less_Suc_eq)
      qed
      have here: "{(o', n). n = i \<and> o' < i
                  \<and> (\<exists>k. doi_key U (es ! i) = Some k \<and> first_with U es k o')} = {}"
        using nofirst \<open>doi_key U (es ! i) = Some k\<close> by auto
      have "set (check_doi_loop U (enumerate i (drop i es)) m d)
          = set (check_doi_loop U (enumerate (Suc i) (drop (Suc i) es)) (m(k \<mapsto> i)) d)"
        by (simp add: unfold check_doi_loop_step \<open>doi_key U (es ! i) = Some k\<close> mk del: check_doi_loop.simps)
      also have "\<dots> = set d \<union> ?S (Suc i)"
        by (rule Suc.hyps(1)[OF l le inv])
      also have "\<dots> = set d \<union> ?S i"
        unfolding split here by auto
      finally show ?thesis .
    qed
  qed
qed

lemma check_doi_duplicates_iff:
  "(orig, n) \<in> set (check_doi_duplicates U es) \<longleftrightarrow>
     n < length es \<and> orig < n \<and> (\<exists>k. doi_key U (es ! n) = Some k \<and> first_with U es k orig)"
proof -
  have "set (check_doi_loop U (enumerate 0 (drop 0 es)) Map.empty [])
     = set [] \<union> {(orig, n). 0 \<le> n \<and> n < length es \<and> orig < n
                  \<and> (\<exists>k. doi_key U (es ! n) = Some k \<and> first_with U es k orig)}"
    by (rule check_doi_loop_set) simp_all
  then show ?thesis
    by (auto simp: check_doi_duplicates_def)
qed

lemma doi_key_truthy:
  "doi_key U e = (if truthy (e ''doi'') then Some (strip U (str_lower U (dict_get e ''doi'' []))) else None)"
  by (simp add: doi_key_def truthy_def dict_get_def split: option.splits)

text \<open>
  Claim C4, as the code has it.  In clean.py an entry is reported by the DOI pass exactly
  when its \<open>doi\<close> field is non-empty and an earlier entry with a non-empty field has the
  same lowercased, stripped identifier; it is attributed to the first such entry; an entry
  whose field is missing or empty is on neither side of any pair.  In clean_mf.py
  \<open>are_duplicates\<close> matches by identifier when both fields are non-empty and equal after
  stripping only (no lowercasing), and otherwise by equal non-empty normalized titles.
\<close>

theorem exact_key_matching:
  "((orig, n) \<in> set (check_doi_duplicates U es) \<longleftrightarrow>
      n < length es \<and> orig < n \<and> truthy ((es ! n) ''doi'') \<and> truthy ((es ! orig) ''doi'')
      \<and> strip U (str_lower U (dict_get (es ! orig) ''doi'' []))
          = strip U (str_lower U (dict_get (es ! n) ''doi'' []))
      \<and> (\<forall>m < orig. truthy ((es ! m) ''doi'') \<longrightarrow>
            strip U (str_lower U (dict_get (es ! m) ''doi'' []))
              \<noteq> strip U (str_lower U (dict_get (es ! n) ''doi'' []))))
   \<and> (n < length es \<and> \<not> truthy ((es ! n) ''doi'') \<longrightarrow>
        n \<notin> fst ` set (check_doi_duplicates U es) \<and> n \<notin> snd ` set (check_doi_duplicates U es))
   \<and> (are_duplicates U e1 e2 \<longleftrightarrow>
        (truthy (e1 ''doi'') \<and> truthy (e2 ''doi'')
           \<and> strip U (dict_get e1 ''doi'' []) = strip U (dict_get e2 ''doi'' []))
        \<or> (normalize_text U (CStr (dict_get e1 ''title'' [])) \<noteq> []
            \<and> normalize_text U (CStr (dict_get e1 ''title'' []))
                = normalize_text U (CStr (dict_get e2 ''title'' []))))"
proof -
  have iff: "(orig, n) \<in> set (check_doi_duplicates U es) \<longleftrightarrow>
      n < length es \<and> orig < n \<and> truthy ((es ! n) ''doi'') \<and> truthy ((es ! orig) ''doi'')
      \<and> strip U (str_lower U (dict_get (es ! orig) ''doi'' []))
          = strip U (str_lower U (dict_get (es ! n) ''doi'' []))
      \<and> (\<forall>m < orig. truthy ((es ! m) ''doi'') \<longrightarrow>
            strip U (str_lower U (dict_get (es ! m) ''doi'' []))
              \<noteq> strip U (str_lower U (dict_get (es ! n) ''doi'' [])))" for orig n
    unfolding check_doi_duplicates_iff first_with_def doi_key_truthy
    by (auto split: if_splits)
  have none: "n \<notin> fst ` set (check_doi_duplicates U es) \<and> n \<notin> snd ` set (check_doi_duplicates U es)"
    if "n < length es" "\<not> truthy ((es ! n) ''doi'')"
  proof -
    have "(n, b) \<notin> set (check_doi_duplicates U es)" for b
      using that(2) by (simp add: iff)
    moreover have "(a, n) \<notin> set (check_doi_duplicates U es)" for a
      using that(2) by (simp add: iff)
    ultimately show ?thesis by auto
  qed
  have mf: "are_duplicates U e1 e2 \<longleftrightarrow>
        (truthy (e1 ''doi'') \<and> truthy (e2 ''doi'')
           \<and> strip U (dict_get e1 ''doi'' []) = strip U (dict_get e2 ''doi'' []))
        \<or> (normalize_text U (CStr (dict_get e1 ''title'' [])) \<noteq> []
            \<and> normalize_text U (CStr (dict_get e1 ''title'' []))
                = normalize_text U (CStr (dict_get e2 ''title'' [])))"
    by (auto simp: are_duplicates_def Let_def)
  from iff[of orig n] none mf show ?thesis by blast
qed

lemma doi_keys_example:
  "strip unicode_excerpt (str_lower unicode_excerpt (lit ''10.1/ABC '')) = lit ''10.1/abc''"
  "strip unicode_excerpt (str_lower unicode_excerpt (lit ''10.1/abc'')) = lit ''10.1/abc''"
  by code_simp+

lemma doi_nonempty_example: "lit ''10.1/ABC '' \<noteq> []" "lit ''10.1/abc'' \<noteq> []"
  by (simp_all add: lit_def)

theorem exact_key_matching_witness:
  "(0, 1) \<in> set (check_doi_duplicates unicode_excerpt
       [[''doi'' \<mapsto> lit ''10.1/ABC ''], [''doi'' \<mapsto> lit ''10.1/abc''], Map.empty])
   \<and> 2 \<notin> snd ` set (check_doi_duplicates unicode_excerpt
       [[''doi'' \<mapsto> lit ''10.1/ABC ''], [''doi'' \<mapsto> lit ''10.1/abc''], Map.empty])"
  using exact_key_matching[where orig = 0 and n = 1 and U = unicode_excerpt and es =
       "[[''doi'' \<mapsto> lit ''10.1/ABC ''], [''doi'' \<mapsto> lit ''10.1/abc''], Map.empty]"]
    exact_key_matching[where n = 2 and U = unicode_excerpt and es =
       "[[''doi'' \<mapsto> lit ''10.1/ABC ''], [''doi'' \<mapsto> lit ''10.1/abc''], Map.empty]"]
  by (simp add: truthy_def dict_get_def doi_keys_example doi_nonempty_example)

theorem exact_key_counterexample:
  "\<not> are_duplicates unicode_excerpt [''doi'' \<mapsto> lit ''10.1/ABC ''] [''doi'' \<mapsto> lit ''10.1/abc'']"
  by code_simp

section \<open>The partition of a run\<close>

lemma check_doi_loop_shape:
  "distinct (map fst xs) \<Longrightarrow>
   \<exists>ys. check_doi_loop U xs m d = d @ ys \<and> distinct (map snd ys) \<and> snd ` set ys \<subseteq> fst ` set xs"
proof (induction xs arbitrary: m d)
  case Nil
  then show ?case by simp
next
  case (Cons x xs)
  obtain n e where x: "x = (n, e)" by (cases x)
  from Cons.prems have dx: "distinct (map fst xs)" and nx: "n \<notin> fst ` set xs"
    by (auto simp: x)
  note ih = Cons.IH[OF dx]
  consider (skip) "check_doi_loop U (x # xs) m d = check_doi_loop U xs m d"
    | (dup) orig where "check_doi_loop U (x # xs) m d = check_doi_loop U xs m (d @ [(orig, n)])"
    | (new) k where "check_doi_loop U (x # xs) m d = check_doi_loop U xs (m(k \<mapsto> n)) d"
  proof (cases "e ''doi''")
    case None
    then show ?thesis using skip by (simp add: x)
  next
    case (Some doi)
    show ?thesis
    proof (cases "doi = []")
      case True
      with Some show ?thesis using skip by (simp add: x)
    next
      case False
      show ?thesis
      proof (cases "m (strip U (str_lower U doi))")
        case None
        with Some False show ?thesis using new by (simp add: x Let_def)
      next
        case (Some orig)
        with \<open>e ''doi'' = Some doi\<close> False show ?thesis using dup by (simp add: x Let_def)
      qed
    qed
  qed
  then show ?case
  proof cases
    case skip
    from ih[of m d] skip show ?thesis by auto
  next
    case (dup orig)
    from ih[of m "d @ [(orig, n)]"] obtain ys where
      ys: "check_doi_loop U xs m (d @ [(orig, n)]) = (d @ [(orig, n)]) @ ys"
        "distinct (map snd ys)" "snd ` set ys \<subseteq> fst ` set xs"
      by blast
    have "check_doi_loop U (x # xs) m d = d @ ((orig, n) # ys)"
      using dup ys(1) by simp
    moreover have "distinct (map snd ((orig, n) # ys))"
      using ys(2,3) nx by auto
    moreover have "snd ` set ((orig, n) # ys) \<subseteq> fst ` set (x # xs)"
      using ys(3) by (auto simp: x)
    ultimately show ?thesis by blast
  next
    case (new k)
    from ih[of "m(k \<mapsto> n)" d] obtain ys where
      ys: "check_doi_loop U xs (m(k \<mapsto> n)) d = d @ ys"
        "distinct (map snd ys)" "snd ` set ys \<subseteq> fst ` set xs"
      by blast
    have "check_doi_loop U (x # xs) m d = d @ ys"
      using new ys(1) by (simp only:)
    moreover have "snd ` set ys \<subseteq> fst ` set (x # xs)"
      using ys(3) by auto
    ultimately show ?thesis using ys(2) by blast
  qed
qed

lemma check_doi_duplicates_shape:
  "distinct (map snd (check_doi_duplicates U es))
   \<and> snd ` set (check_doi_duplicates U es) \<subseteq> {0..<length es}"
proof -
  have d: "distinct (map fst (enumerate 0 es))" by simp
  from check_doi_loop_shape[OF d, of U Map.empty "[]"]
  show ?thesis
    unfolding check_doi_duplicates_def by (auto simp: in_set_enumerate_eq)
qed

text \<open>
  The invariant of a run on \<open>n\<close> entries: the reports name pairwise different
  duplicates, which are exactly the removed positions.
\<close>

definition claimed_once :: "nat \<Rightarrow> dedup_state \<Rightarrow> bool" where
  "claimed_once n s =
     (distinct (map duplicate (duplicate_file s))
      \<and> set (map duplicate (duplicate_file s)) = removed_entries s
      \<and> removed_entries s \<subseteq> {0..<n}
      \<and> duplicates_count s = length (duplicate_file s))"

lemma doi_step_claimed:
  "claimed_once n s \<Longrightarrow> snd p \<notin> removed_entries s \<Longrightarrow> snd p < n \<Longrightarrow> claimed_once n (doi_step p s)"
  by (cases p) (auto simp: claimed_once_def doi_step_def log_duplicate_def)

lemma doi_step_removed: "removed_entries (doi_step p s) = insert (snd p) (removed_entries s)"
  by (cases p) (simp add: doi_step_def log_duplicate_def)

lemma fold_doi_step_claimed:
  "claimed_once n s \<Longrightarrow> distinct (map snd ps) \<Longrightarrow> snd ` set ps \<subseteq> {0..<n} \<Longrightarrow>
   snd ` set ps \<inter> removed_entries s = {} \<Longrightarrow> claimed_once n (fold doi_step ps s)"
proof (induction ps arbitrary: s)
  case Nil
  then show ?case by simp
next
  case (Cons p ps)
  have 1: "claimed_once n (doi_step p s)"
    using Cons.prems by (intro doi_step_claimed) auto
  have 2: "snd ` set ps \<inter> removed_entries (doi_step p s) = {}"
    using Cons.prems by (auto simp: doi_step_removed)
  show ?case
    using Cons.IH[OF 1 _ _ 2] Cons.prems by simp
qed

lemma similarity_step_claimed:
  "claimed_once n s \<Longrightarrow> j < n \<Longrightarrow> claimed_once n (similarity_step U es i j s)"
  by (auto simp: claimed_once_def similarity_step_def log_duplicate_def)

lemma fold_similarity_step_claimed:
  "claimed_once n s \<Longrightarrow> \<forall>j \<in> set js. j < n \<Longrightarrow> claimed_once n (fold (similarity_step U es i) js s)"
  by (induction js arbitrary: s) (simp_all add: similarity_step_claimed)

lemma similarity_row_claimed:
  "claimed_once (length es) s \<Longrightarrow> claimed_once (length es) (similarity_row U es i s)"
  by (simp add: similarity_row_def fold_similarity_step_claimed)

lemma fold_similarity_row_claimed:
  "claimed_once (length es) s \<Longrightarrow> claimed_once (length es) (fold (similarity_row U es) rows s)"
  by (induction rows arbitrary: s) (simp_all add: similarity_row_claimed)

lemma dedup_run_claimed: "claimed_once (length es) (dedup_run U es [])"
proof -
  have 0: "claimed_once (length es) \<lparr>removed_entries = {}, duplicates_count = 0, duplicate_file = []\<rparr>"
    by (simp add: claimed_once_def)
  have 1: "claimed_once (length es)
     (fold doi_step (check_doi_duplicates U es)
        \<lparr>removed_entries = {}, duplicates_count = 0, duplicate_file = []\<rparr>)"
    using check_doi_duplicates_shape[of U es] by (intro fold_doi_step_claimed[OF 0]) auto
  show ?thesis
    unfolding dedup_run_def Let_def by (rule fold_similarity_row_claimed[OF 1])
qed

text \<open>
  Claim C1.  For every input batch the number of entries returned plus the number of
  reported duplicates is the size of the batch (and the counter agrees with the number of
  reports); the kept positions followed by the reported duplicates list every position of
  the batch exactly once, so the two are disjoint and together cover the input.
\<close>

theorem partition_complete:
  "length (deduplicate_entries U es []) + length (duplicate_file (dedup_run U es [])) = length es
   \<and> duplicates_count (dedup_run U es []) = length (duplicate_file (dedup_run U es []))
   \<and> distinct (unique_indices U es [] @ map duplicate (duplicate_file (dedup_run U es [])))
   \<and> set (unique_indices U es [] @ map duplicate (duplicate_file (dedup_run U es []))) = {0..<length es}"
proof -
  define s where "s = dedup_run U es []"
  define dups where "dups = map duplicate (duplicate_file s)"
  define uniq where "uniq = unique_indices U es []"
  have inv: "distinct dups" "set dups = removed_entries s" "removed_entries s \<subseteq> {0..<length es}"
    "duplicates_count s = length (duplicate_file s)"
    using dedup_run_claimed[of es U] by (simp_all add: claimed_once_def s_def dups_def)
  have uniq: "uniq = filter (\<lambda>n. n \<notin> removed_entries s) [0..<length es]"
    by (simp add: uniq_def unique_indices_def s_def)
  have dis: "distinct (uniq @ dups)"
    using inv(1,2) by (auto simp: uniq)
  have all: "set (uniq @ dups) = {0..<length es}"
    using inv(2,3) by (auto simp: uniq)
  have "length (uniq @ dups) = card (set (uniq @ dups))"
    using dis by (simp only: distinct_card)
  then have len: "length uniq + length dups = length es"
    by (simp only: all) simp
  have "length (deduplicate_entries U es []) = length uniq"
    by (simp add: deduplicate_entries_def uniq_def)
  with len dis all inv(4) show ?thesis
    by (simp add: s_def dups_def uniq_def)
qed

section \<open>Originals and duplicates across the two passes\<close>

lemma fold_doi_step_file:
  "duplicate_file (fold doi_step ps s)
     = duplicate_file s @ map (\<lambda>p. Report ''DOI match'' (fst p) (snd p)) ps"
proof (induction ps arbitrary: s)
  case Nil
  show ?case by simp
next
  case (Cons p ps)
  have "duplicate_file (doi_step p s) = duplicate_file s @ [Report ''DOI match'' (fst p) (snd p)]"
    by (cases p) (simp add: doi_step_def log_duplicate_def)
  then show ?case by (simp add: Cons.IH)
qed

lemma fold_doi_step_removed:
  "removed_entries (fold doi_step ps s) = removed_entries s \<union> snd ` set ps"
  by (induction ps arbitrary: s) (auto simp: doi_step_removed)

text \<open>
  The invariant of the similarity pass while row \<open>i\<close> is open: the reports of this pass
  name originals at or before \<open>i\<close> that are not removed, and the reports of the DOI pass
  are the list \<open>D\<close>.
\<close>

definition fuzzy_inv :: "nat \<Rightarrow> report list \<Rightarrow> dedup_state \<Rightarrow> bool" where
  "fuzzy_inv i D s =
     ((\<forall>r \<in> set (duplicate_file s). found_by r = ''Title/Author similarity'' \<longrightarrow>
          original r \<le> i \<and> original r < duplicate r \<and> original r \<notin> removed_entries s)
      \<and> filter (\<lambda>r. found_by r \<noteq> ''Title/Author similarity'') (duplicate_file s) = D)"

lemma similarity_step_inv:
  assumes "fuzzy_inv i D s" and "i \<notin> removed_entries s" and "i < j"
  shows "fuzzy_inv i D (similarity_step U es i j s) \<and> i \<notin> removed_entries (similarity_step U es i j s)"
  using assms
  by (auto simp: fuzzy_inv_def similarity_step_def log_duplicate_def)

lemma fold_similarity_step_inv:
  assumes "fuzzy_inv i D s" and "i \<notin> removed_entries s" and "\<forall>j \<in> set js. i < j"
  shows "fuzzy_inv i D (fold (similarity_step U es i) js s)"
  using assms
proof (induction js arbitrary: s)
  case Nil
  then show ?case by simp
next
  case (Cons j js)
  from Cons.prems have ij: "i < j" by simp
  from similarity_step_inv[OF Cons.prems(1,2) ij, of U es]
  have "fuzzy_inv i D (similarity_step U es i j s)"
    and "i \<notin> removed_entries (similarity_step U es i j s)"
    by simp_all
  from Cons.IH[OF this] Cons.prems(3) show ?case by simp
qed

lemma fuzzy_inv_mono: "fuzzy_inv i D s \<Longrightarrow> i \<le> k \<Longrightarrow> fuzzy_inv k D s"
  by (fastforce simp: fuzzy_inv_def)

text \<open>Before row \<open>i\<close> is opened every original of the pass lies strictly before \<open>i\<close>.\<close>

definition fuzzy_before :: "nat \<Rightarrow> report list \<Rightarrow> dedup_state \<Rightarrow> bool" where
  "fuzzy_before i D s =
     ((\<forall>r \<in> set (duplicate_file s). found_by r = ''Title/Author similarity'' \<longrightarrow>
          original r < i \<and> original r < duplicate r \<and> original r \<notin> removed_entries s)
      \<and> filter (\<lambda>r. found_by r \<noteq> ''Title/Author similarity'') (duplicate_file s) = D)"

lemma similarity_row_before:
  assumes "fuzzy_before i D s"
  shows "fuzzy_before (Suc i) D (similarity_row U es i s)"
proof -
  have inv: "fuzzy_inv i D s"
    using assms by (fastforce simp: fuzzy_before_def fuzzy_inv_def)
  have "fuzzy_inv i D (similarity_row U es i s)"
  proof (cases "i \<in> removed_entries s")
    case True
    then show ?thesis using inv by (simp add: similarity_row_def)
  next
    case False
    then show ?thesis
      using inv by (simp add: similarity_row_def fold_similarity_step_inv)
  qed
  then show ?thesis
    by (fastforce simp: fuzzy_before_def fuzzy_inv_def)
qed

lemma fold_similarity_row_before:
  "fuzzy_before a D s \<Longrightarrow> fuzzy_before (a + n) D (fold (similarity_row U es) [a..<a + n] s)"
proof (induction n)
  case 0
  then show ?case by simp
next
  case (Suc n)
  then show ?case by (simp add: similarity_row_before)
qed

lemma dedup_run_fuzzy:
  "fuzzy_before (length es) (map (\<lambda>p. Report ''DOI match'' (fst p) (snd p)) (check_doi_duplicates U es))
     (dedup_run U es [])"
proof -
  let ?D = "map (\<lambda>p. Report ''DOI match'' (fst p) (snd p)) (check_doi_duplicates U es)"
  let ?s1 = "fold doi_step (check_doi_duplicates U es)
        \<lparr>removed_entries = {}, duplicates_count = 0, duplicate_file = []\<rparr>"
  have f: "duplicate_file ?s1 = ?D"
    by (simp add: fold_doi_step_file)
  have "filter (\<lambda>r. found_by r \<noteq> ''Title/Author similarity'') ?D = ?D"
    by (induction "check_doi_duplicates U es") simp_all
  then have "fuzzy_before 0 ?D ?s1"
    unfolding fuzzy_before_def f by auto
  from fold_similarity_row_before[OF this, of "length es" U es]
  show ?thesis
    by (simp add: dedup_run_def Let_def)
qed

lemma run_abc:
  "duplicate_file (dedup_run unicode_excerpt
     [[''title'' \<mapsto> lit ''t'', ''author'' \<mapsto> lit ''a''],
      [''title'' \<mapsto> lit ''t'', ''author'' \<mapsto> lit ''a'', ''doi'' \<mapsto> lit ''d''],
      [''title'' \<mapsto> lit ''x'', ''author'' \<mapsto> lit ''y'', ''doi'' \<mapsto> lit ''d'']] [])
   = [Report ''DOI match'' 1 2, Report ''Title/Author similarity'' 0 1]"
  by code_simp


text \<open>
  Claim C2, as the code has it.  No entry is reported as a duplicate twice; every report
  names an original that precedes its duplicate; an original of the similarity pass is
  never a duplicate of any report (so an entry removed by the DOI pass is never looked at
  again, on either side); an original of the DOI pass is never a duplicate of the DOI
  pass.  An original of the DOI pass can still be removed by the similarity pass: the
  run below reports entry 1 as the original of entry 2 and as a duplicate of entry 0.
\<close>

theorem terminal_status:
  "distinct (map duplicate (duplicate_file (dedup_run U es [])))
   \<and> (\<forall>r \<in> set (duplicate_file (dedup_run U es [])).
         original r < duplicate r \<and> duplicate r < length es
         \<and> (found_by r = ''DOI match'' \<or> found_by r = ''Title/Author similarity''))
   \<and> (\<forall>r \<in> set (duplicate_file (dedup_run U es [])).
         found_by r = ''Title/Author similarity'' \<longrightarrow>
         original r \<notin> duplicate ` set (duplicate_file (dedup_run U es [])))
   \<and> (\<forall>r \<in> set (duplicate_file (dedup_run U es [])).
       \<forall>r' \<in> set (duplicate_file (dedup_run U es [])).
         found_by r = ''DOI match'' \<longrightarrow> found_by r' = ''DOI match'' \<longrightarrow> original r \<noteq> duplicate r')"
proof -
  define R where "R = duplicate_file (dedup_run U es [])"
  define ps where "ps = check_doi_duplicates U es"
  define D where "D = map (\<lambda>p. Report ''DOI match'' (fst p) (snd p)) ps"
  have once: "distinct (map duplicate R)" "set (map duplicate R) = removed_entries (dedup_run U es [])"
    "removed_entries (dedup_run U es []) \<subseteq> {0..<length es}"
    using dedup_run_claimed[of es U] by (simp_all add: claimed_once_def R_def)
  have fz: "original r < duplicate r \<and> original r \<notin> removed_entries (dedup_run U es [])"
    if "r \<in> set R" "found_by r = ''Title/Author similarity''" for r
    using dedup_run_fuzzy[of es U] that by (auto simp: fuzzy_before_def R_def)
  have flt: "filter (\<lambda>r. found_by r \<noteq> ''Title/Author similarity'') R = D"
    using dedup_run_fuzzy[of es U] by (simp add: fuzzy_before_def R_def D_def ps_def)
  have inD: "r \<in> set D" if "r \<in> set R" "found_by r \<noteq> ''Title/Author similarity''" for r
  proof -
    from that have "r \<in> set (filter (\<lambda>r. found_by r \<noteq> ''Title/Author similarity'') R)" by simp
    then show ?thesis by (simp only: flt)
  qed
  have doi: "found_by r = ''DOI match'' \<and> (original r, duplicate r) \<in> set ps" if "r \<in> set D" for r
    using that by (auto simp: D_def)
  have tags: "found_by r = ''DOI match'' \<or> found_by r = ''Title/Author similarity''"
    if "r \<in> set R" for r
    using inD[OF that] doi by blast
  have lt: "original r < duplicate r" if "r \<in> set R" for r
  proof (cases "found_by r = ''Title/Author similarity''")
    case True
    with fz[OF that] show ?thesis by simp
  next
    case False
    from doi[OF inD[OF that False]] show ?thesis
      by (simp add: ps_def check_doi_duplicates_iff)
  qed
  have bound: "duplicate r < length es" if "r \<in> set R" for r
  proof -
    from that have "duplicate r \<in> set (map duplicate R)" by simp
    with once(2,3) show ?thesis by auto
  qed
  have c: "original r \<notin> duplicate ` set R" if "r \<in> set R" "found_by r = ''Title/Author similarity''" for r
    using fz[OF that] once(2) by auto
  have d: "original r \<noteq> duplicate r'"
    if "r \<in> set R" "r' \<in> set R" "found_by r = ''DOI match''" "found_by r' = ''DOI match''" for r r'
  proof
    assume eq: "original r = duplicate r'"
    from that have "r \<in> set D" "r' \<in> set D" by (auto intro: inD)
    then have "(original r, duplicate r) \<in> set ps" "(original r', duplicate r') \<in> set ps"
      using doi by blast+
    then have p: "(original r, duplicate r) \<in> set ps" "(original r', original r) \<in> set ps"
      by (simp_all only: eq)
    from p(1) obtain k where k: "first_with U es k (original r)"
      by (auto simp: ps_def check_doi_duplicates_iff)
    from p(2) obtain k' where k': "original r' < original r"
      "doi_key U (es ! original r) = Some k'" "first_with U es k' (original r')"
      by (auto simp: ps_def check_doi_duplicates_iff)
    from k k'(2) have "k' = k" by (simp add: first_with_def)
    with k'(3) have "first_with U es k (original r')" by simp
    from first_with_unique[OF k this] k'(1) show False by simp
  qed
  from once(1) tags lt bound c d show ?thesis
    unfolding R_def by blast
qed

theorem terminal_status_witness:
  "duplicate_file (dedup_run unicode_excerpt
     [[''title'' \<mapsto> lit ''t'', ''author'' \<mapsto> lit ''a''],
      [''title'' \<mapsto> lit ''t'', ''author'' \<mapsto> lit ''a'', ''doi'' \<mapsto> lit ''d''],
      [''title'' \<mapsto> lit ''x'', ''author'' \<mapsto> lit ''y'', ''doi'' \<mapsto> lit ''d'']] [])
   = [Report ''DOI match'' 1 2, Report ''Title/Author similarity'' 0 1]
   \<and> distinct (map duplicate [Report ''DOI match'' 1 2, Report ''Title/Author similarity'' 0 1])
   \<and> (0::nat) \<notin> duplicate ` set [Report ''DOI match'' 1 2, Report ''Title/Author similarity'' 0 1]"
  using terminal_status[of unicode_excerpt
     "[[''title'' \<mapsto> lit ''t'', ''author'' \<mapsto> lit ''a''],
      [''title'' \<mapsto> lit ''t'', ''author'' \<mapsto> lit ''a'', ''doi'' \<mapsto> lit ''d''],
      [''title'' \<mapsto> lit ''x'', ''author'' \<mapsto> lit ''y'', ''doi'' \<mapsto> lit ''d'']]"]
  unfolding run_abc by simp

theorem terminal_status_counterexample:
  "duplicate_file (dedup_run unicode_excerpt
     [[''title'' \<mapsto> lit ''t'', ''author'' \<mapsto> lit ''a''],
      [''title'' \<mapsto> lit ''t'', ''author'' \<mapsto> lit ''a'', ''doi'' \<mapsto> lit ''d''],
      [''title'' \<mapsto> lit ''x'', ''author'' \<mapsto> lit ''y'', ''doi'' \<mapsto> lit ''d'']] [])
   = [Report ''DOI match'' 1 2, Report ''Title/Author similarity'' 0 1]
   \<and> original (Report ''DOI match'' 1 2) = duplicate (Report ''Title/Author similarity'' 0 1)"
  using run_abc by simp


section \<open>Composite keys and their separator\<close>


lemma set_strip: "set (strip U s) \<subseteq> set s"
proof
  fix x
  assume "x \<in> set (strip U s)"
  then have "x \<in> set (dropWhile (is_space U) (rev (dropWhile (is_space U) s)))"
    by (simp add: strip_def)
  then have "x \<in> set (rev (dropWhile (is_space U) s))"
    by (rule set_dropWhileD)
  then have "x \<in> set (dropWhile (is_space U) s)"
    by simp
  then show "x \<in> set s"
    by (rule set_dropWhileD)
qed

lemma set_sub_space_runs:
  "c \<in> set (sub_space_runs U s) \<Longrightarrow> c = 32 \<or> (c \<in> set s \<and> \<not> is_space U c)"
proof (induction U s rule: sub_space_runs.induct)
  case (1 U)
  then show ?case by simp
next
  case (2 U d ds)
  show ?case
  proof (cases "is_space U d")
    case True
    with 2 show ?thesis by (auto dest: set_dropWhileD)
  next
    case False
    with 2 show ?thesis by auto
  qed
qed

lemma normalized_chars:
  assumes "c \<in> set (strip U (sub_space_runs U (del_special U t)))"
  shows "re_word U c \<or> c = 32"
proof -
  from assms set_strip have "c \<in> set (sub_space_runs U (del_special U t))" by blast
  from set_sub_space_runs[OF this] show ?thesis
    by (auto simp: del_special_def)
qed













section \<open>Normalizing twice\<close>

text \<open>
  \<open>single_spaced U s\<close>: every whitespace character of \<open>s\<close> is a space (U+0020) and is
  not followed by another whitespace character.
\<close>

fun single_spaced :: "unicode_tables \<Rightarrow> pystr \<Rightarrow> bool" where
  "single_spaced U [] = True"
| "single_spaced U (c # cs) =
     ((is_space U c \<longrightarrow> c = 32 \<and> (cs = [] \<or> \<not> is_space U (hd cs))) \<and> single_spaced U cs)"

lemma sub_space_runs_fixed: "single_spaced U s \<Longrightarrow> sub_space_runs U s = s"
proof (induction s)
  case Nil
  show ?case by simp
next
  case (Cons c cs)
  then have ih: "sub_space_runs U cs = cs" by simp
  show ?case
  proof (cases "is_space U c")
    case True
    with Cons.prems have c: "c = 32" and hd: "cs = [] \<or> \<not> is_space U (hd cs)" by simp_all
    from hd have "dropWhile (is_space U) cs = cs" by (cases cs) simp_all
    with True c ih show ?thesis by simp
  next
    case False
    with ih show ?thesis by simp
  qed
qed

lemma hd_sub_space_runs:
  "s \<noteq> [] \<Longrightarrow> \<not> is_space U (hd s) \<Longrightarrow>
     sub_space_runs U s \<noteq> [] \<and> hd (sub_space_runs U s) = hd s"
  by (cases s) simp_all

lemma single_spaced_sub_space_runs:
  "is_space U 32 \<Longrightarrow> single_spaced U (sub_space_runs U s)"
proof (induction U s rule: sub_space_runs.induct)
  case (1 U)
  show ?case by simp
next
  case (2 U c cs)
  show ?case
  proof (cases "is_space U c")
    case True
    let ?t = "dropWhile (is_space U) cs"
    have ih: "single_spaced U (sub_space_runs U ?t)" using 2 True by simp
    have "sub_space_runs U ?t = [] \<or> \<not> is_space U (hd (sub_space_runs U ?t))"
    proof (cases "?t = []")
      case True
      then have "sub_space_runs U ?t = []" by (simp only: sub_space_runs.simps)
      then show ?thesis by (rule disjI1)
    next
      case False
      then have "\<not> is_space U (hd ?t)" by (rule hd_dropWhile)
      with hd_sub_space_runs[OF False this] show ?thesis by simp
    qed
    with True ih show ?thesis by simp
  next
    case False
    with 2 show ?thesis by simp
  qed
qed

lemma single_spaced_append: "single_spaced U (xs @ ys) \<Longrightarrow> single_spaced U xs \<and> single_spaced U ys"
proof (induction xs)
  case Nil
  then show ?case by simp
next
  case (Cons x xs)
  then have ih: "single_spaced U xs \<and> single_spaced U ys" by simp
  have "xs = [] \<or> \<not> is_space U (hd xs)" if "is_space U x"
    using Cons.prems that by (cases xs) auto
  moreover have "x = 32" if "is_space U x" using Cons.prems that by simp
  ultimately show ?case using ih by simp
qed

lemma strip_suffix:
  "dropWhile (is_space U) s
     = strip U s @ rev (takeWhile (is_space U) (rev (dropWhile (is_space U) s)))"
proof -
  let ?d = "dropWhile (is_space U) s"
  have "?d = rev (rev ?d)" by simp
  also have "rev ?d = takeWhile (is_space U) (rev ?d) @ dropWhile (is_space U) (rev ?d)"
    by (simp only: takeWhile_dropWhile_id)
  also have "rev (takeWhile (is_space U) (rev ?d) @ dropWhile (is_space U) (rev ?d))
      = rev (dropWhile (is_space U) (rev ?d)) @ rev (takeWhile (is_space U) (rev ?d))"
    by (rule rev_append)
  finally show ?thesis unfolding strip_def .
qed

lemma strip_decomp: "\<exists>pre post. s = pre @ strip U s @ post"
proof -
  have "s = takeWhile (is_space U) s @ dropWhile (is_space U) s" by simp
  also have "dropWhile (is_space U) s
      = strip U s @ rev (takeWhile (is_space U) (rev (dropWhile (is_space U) s)))"
    by (rule strip_suffix)
  finally have e: "s = takeWhile (is_space U) s @ strip U s
      @ rev (takeWhile (is_space U) (rev (dropWhile (is_space U) s)))" .
  show ?thesis by (rule exI, rule exI, rule e)
qed

lemma single_spaced_strip: "single_spaced U s \<Longrightarrow> single_spaced U (strip U s)"
proof -
  assume a: "single_spaced U s"
  from strip_decomp[of s U] obtain pre post where "s = pre @ strip U s @ post" by blast
  with a have "single_spaced U (pre @ strip U s @ post)" by simp
  then show ?thesis using single_spaced_append by blast
qed

lemma strip_ends:
  "strip U s = [] \<or> (\<not> is_space U (hd (strip U s)) \<and> \<not> is_space U (last (strip U s)))"
proof (cases "strip U s = []")
  case True
  then show ?thesis by simp
next
  case False
  let ?d = "dropWhile (is_space U) s"
  let ?e = "dropWhile (is_space U) (rev ?d)"
  have e: "?e \<noteq> []" using False by (simp add: strip_def)
  then have l: "\<not> is_space U (hd ?e)" by (rule hd_dropWhile)
  have last: "last (strip U s) = hd ?e"
    using e by (simp add: strip_def last_rev)
  have d: "?d \<noteq> []"
  proof
    assume "?d = []"
    then have "?e = []" by (simp only: rev.simps dropWhile.simps)
    with e show False by (rule notE)
  qed
  then have hd_d: "\<not> is_space U (hd ?d)" by (rule hd_dropWhile)
  have "\<exists>post. ?d = strip U s @ post"
    by (rule exI, rule strip_suffix)
  then obtain post where "?d = strip U s @ post" by blast
  then have "hd ?d = hd (strip U s)" using False by (metis hd_append2)
  with hd_d l last show ?thesis by simp
qed

lemma strip_fixed:
  assumes "s = [] \<or> (\<not> is_space U (hd s) \<and> \<not> is_space U (last s))"
  shows "strip U s = s"
proof (cases "s = []")
  case True
  then show ?thesis by (simp add: strip_def)
next
  case False
  with assms have h: "\<not> is_space U (hd s)" and l: "\<not> is_space U (last s)" by simp_all
  have 1: "dropWhile (is_space U) s = s" using False h by (cases s) simp_all
  have "rev s \<noteq> []" using False by simp
  moreover have "hd (rev s) = last s" using False by (simp add: hd_rev)
  ultimately obtain a t where at: "rev s = a # t" and a: "a = last s"
    by (cases "rev s") auto
  have "dropWhile (is_space U) (a # t) = a # t" using l a by simp
  then have 2: "dropWhile (is_space U) (rev s) = rev s" by (simp only: at)
  show ?thesis by (simp add: strip_def 1 2)
qed

lemma renormalize:
  assumes sp: "is_space U 32"
    and out: "out = strip U (sub_space_runs U (del_special U t))"
  shows "strip U (sub_space_runs U (del_special U out)) = out"
proof -
  have chars: "\<forall>c \<in> set out. re_word U c \<or> is_space U c"
    using normalized_chars[of _ U t] sp unfolding out by blast
  then have 1: "del_special U out = out"
    by (simp add: del_special_def)
  have "single_spaced U (sub_space_runs U (del_special U t))"
    by (rule single_spaced_sub_space_runs[OF sp])
  then have "single_spaced U out"
    unfolding out by (rule single_spaced_strip)
  then have 2: "sub_space_runs U out = out"
    by (rule sub_space_runs_fixed)
  have "out = [] \<or> (\<not> is_space U (hd out) \<and> \<not> is_space U (last out))"
    unfolding out by (rule strip_ends)
  then have 3: "strip U out = out"
    by (rule strip_fixed)
  show ?thesis by (simp only: 1 2 3)
qed

lemma normalize_string_again:
  assumes "is_space U 32"
    and "str_lower U (normalize_string U x) = normalize_string U x"
    and "nfkd U (normalize_string U x) = normalize_string U x"
  shows "normalize_string U (Some (normalize_string U x)) = normalize_string U x"
proof (cases "normalize_string U x = []")
  case True
  then show ?thesis by (simp add: normalize_string_def)
next
  case False
  then obtain t where x: "x = Some t" and t: "t \<noteq> []"
    by (cases x) (auto simp: normalize_string_def split: if_splits)
  define out where "out = normalize_string U x"
  have o: "out = strip U (sub_space_runs U (del_special U (nfkd U (str_lower U t))))"
    by (simp add: out_def x t normalize_string_def Let_def)
  have fx: "str_lower U out = out" "nfkd U out = out" "out \<noteq> []"
    using False assms(2,3) by (simp_all add: out_def)
  have "normalize_string U (Some out) = strip U (sub_space_runs U (del_special U out))"
    by (simp add: normalize_string_def Let_def fx)
  also have "\<dots> = out"
    by (rule renormalize[OF assms(1) o])
  finally show ?thesis by (simp add: out_def)
qed

declare split_ws.simps [simp del]

lemma split_ws_unfold:
  "split_ws U s =
     (case dropWhile (is_space U) s of
        [] \<Rightarrow> []
      | c # cs \<Rightarrow> (c # takeWhile (\<lambda>x. \<not> is_space U x) cs)
                 # split_ws U (dropWhile (\<lambda>x. \<not> is_space U x) cs))"
  by (rule split_ws.simps)

lemma split_ws_Nil: "split_ws U [] = []"
  by (simp add: split_ws_unfold[of U "[]"])

lemma split_ws_skip: "split_ws U (dropWhile (is_space U) s) = split_ws U s"
proof -
  have "split_ws U (dropWhile (is_space U) s)
      = (case dropWhile (is_space U) (dropWhile (is_space U) s) of
          [] \<Rightarrow> []
        | c # cs \<Rightarrow> (c # takeWhile (\<lambda>x. \<not> is_space U x) cs)
                 # split_ws U (dropWhile (\<lambda>x. \<not> is_space U x) cs))"
    by (rule split_ws.simps)
  also have "\<dots> = (case dropWhile (is_space U) s of
          [] \<Rightarrow> []
        | c # cs \<Rightarrow> (c # takeWhile (\<lambda>x. \<not> is_space U x) cs)
                 # split_ws U (dropWhile (\<lambda>x. \<not> is_space U x) cs))"
    by (simp only: dropWhile_idem)
  also have "\<dots> = split_ws U s"
    by (rule split_ws.simps[symmetric])
  finally show ?thesis .
qed

lemma split_ws_words:
  "w \<in> set (split_ws U s) \<Longrightarrow> w \<noteq> [] \<and> (\<forall>c \<in> set w. \<not> is_space U c) \<and> set w \<subseteq> set s"
proof (induction U s rule: split_ws.induct)
  case (1 U s)
  show ?case
  proof (cases "dropWhile (is_space U) s")
    case Nil
    have "split_ws U s = []"
      by (simp only: split_ws_unfold[of U s] Nil list.case)
    with "1.prems" show ?thesis by simp
  next
    case (Cons c cs)
    have unf: "split_ws U s = (c # takeWhile (\<lambda>x. \<not> is_space U x) cs)
                 # split_ws U (dropWhile (\<lambda>x. \<not> is_space U x) cs)"
      by (simp only: split_ws_unfold[of U s] Cons list.case)
    have "dropWhile (is_space U) s \<noteq> []" using Cons by simp
    then have "\<not> is_space U (hd (dropWhile (is_space U) s))" by (rule hd_dropWhile)
    then have c: "\<not> is_space U c" by (simp add: Cons)
    have sub: "set (c # cs) \<subseteq> set s"
      using set_dropWhileD[of _ "is_space U" s] by (auto simp: Cons)
    show ?thesis
    proof (cases "w = c # takeWhile (\<lambda>x. \<not> is_space U x) cs")
      case True
      have "\<forall>x \<in> set (takeWhile (\<lambda>x. \<not> is_space U x) cs). \<not> is_space U x"
        by (auto dest: set_takeWhileD)
      moreover have "set (takeWhile (\<lambda>x. \<not> is_space U x) cs) \<subseteq> set cs"
        by (auto dest: set_takeWhileD)
      ultimately show ?thesis using True c sub by auto
    next
      case False
      with "1.prems" unf have "w \<in> set (split_ws U (dropWhile (\<lambda>x. \<not> is_space U x) cs))"
        by simp
      from "1.IH"[OF Cons this]
      have "w \<noteq> [] \<and> (\<forall>c \<in> set w. \<not> is_space U c)
          \<and> set w \<subseteq> set (dropWhile (\<lambda>x. \<not> is_space U x) cs)" .
      moreover have "set (dropWhile (\<lambda>x. \<not> is_space U x) cs) \<subseteq> set cs"
        by (auto dest: set_dropWhileD)
      ultimately show ?thesis using sub by auto
    qed
  qed
qed

lemma split_ws_word:
  assumes "w \<noteq> []" and "\<forall>c \<in> set w. \<not> is_space U c" and "r = [] \<or> is_space U (hd r)"
  shows "split_ws U (w @ r) = w # split_ws U r"
proof -
  from assms(1) obtain c cs where w: "w = c # cs" by (cases w) auto
  from assms(2) have c: "\<not> is_space U c" and cs: "\<forall>x \<in> set cs. \<not> is_space U x"
    by (simp_all add: w)
  have d: "dropWhile (is_space U) (w @ r) = c # (cs @ r)"
    using c by (simp add: w)
  have tr: "takeWhile (\<lambda>x. \<not> is_space U x) r = []" and dr: "dropWhile (\<lambda>x. \<not> is_space U x) r = r"
    using assms(3) by (cases r; simp)+
  have t: "takeWhile (\<lambda>x. \<not> is_space U x) (cs @ r) = cs"
    using cs by (simp add: takeWhile_append2 tr)
  have dd: "dropWhile (\<lambda>x. \<not> is_space U x) (cs @ r) = r"
    using cs by (simp add: dropWhile_append2 dr)
  have "split_ws U (w @ r) = (c # cs) # split_ws U r"
    by (simp only: split_ws_unfold[of U "w @ r"] d list.case t dd)
  then show ?thesis by (simp only: w)
qed

lemma split_ws_join:
  assumes sp: "is_space U 32"
  shows "\<forall>w \<in> set ws. w \<noteq> [] \<and> (\<forall>c \<in> set w. \<not> is_space U c) \<Longrightarrow> split_ws U (join [32] ws) = ws"
proof (induction "[32::nat]" ws rule: join.induct)
  case 1
  show ?case by (simp add: split_ws_Nil)
next
  case (2 p)
  then have "split_ws U (p @ []) = p # split_ws U []"
    by (intro split_ws_word) simp_all
  then show ?case by (simp add: split_ws_Nil)
next
  case (3 p q ps)
  have ih: "split_ws U (join [32] (q # ps)) = q # ps"
    using 3 by simp
  have "split_ws U (32 # join [32] (q # ps))
      = split_ws U (dropWhile (is_space U) (32 # join [32] (q # ps)))"
    by (rule split_ws_skip[symmetric])
  also have "\<dots> = split_ws U (dropWhile (is_space U) (join [32] (q # ps)))"
    using sp by simp
  also have "\<dots> = split_ws U (join [32] (q # ps))"
    by (rule split_ws_skip)
  finally have rest: "split_ws U (32 # join [32] (q # ps)) = q # ps"
    using ih by simp
  have "split_ws U (p @ (32 # join [32] (q # ps))) = p # split_ws U (32 # join [32] (q # ps))"
    using 3(2) sp by (intro split_ws_word) simp_all
  with rest show ?case by simp
qed

lemma set_join: "set (join sep ws) \<subseteq> set sep \<union> \<Union> (set ` set ws)"
  by (induction sep ws rule: join.induct) auto

lemma normalize_text_again:
  assumes sp: "is_space U 32" and mn: "\<not> cat_Mn U 32"
    and lo: "str_lower U (normalize_text U v) = normalize_text U v"
    and nf: "nfkd U (normalize_text U v) = normalize_text U v"
  shows "normalize_text U (CStr (normalize_text U v)) = normalize_text U v"
proof -
  define out where "out = normalize_text U v"
  have fx: "str_lower U out = out" "nfkd U out = out"
    using lo nf by (simp_all add: out_def)
  obtain t where o: "out = join [32] (split_ws U (blank_special U (filter (\<lambda>c. \<not> cat_Mn U c) t)))"
  proof (cases "isna v")
    case True
    then have "out = join [32] (split_ws U (blank_special U (filter (\<lambda>c. \<not> cat_Mn U c) [])))"
      by (simp add: out_def normalize_text_def blank_special_def split_ws_Nil)
    then show ?thesis by (rule that)
  next
    case False
    then have "out = join [32] (split_ws U (blank_special U
        (filter (\<lambda>c. \<not> cat_Mn U c) (nfkd U (str_lower U (py_str v))))))"
      by (simp add: out_def normalize_text_def Let_def)
    then show ?thesis by (rule that)
  qed
  define ws where "ws = split_ws U (blank_special U (filter (\<lambda>c. \<not> cat_Mn U c) t))"
  have ow: "out = join [32] ws" by (simp add: o ws_def)
  have words: "w \<noteq> [] \<and> (\<forall>c \<in> set w. \<not> is_space U c)
      \<and> set w \<subseteq> set (blank_special U (filter (\<lambda>c. \<not> cat_Mn U c) t))" if "w \<in> set ws" for w
    using that unfolding ws_def by (rule split_ws_words)
  have wchar: "re_word U c \<and> \<not> cat_Mn U c" if "w \<in> set ws" "c \<in> set w" for w c
  proof -
    from words[OF that(1)] that(2) have ns: "\<not> is_space U c"
      and "c \<in> set (blank_special U (filter (\<lambda>c. \<not> cat_Mn U c) t))" by auto
    then obtain d where d: "d \<in> set t" "\<not> cat_Mn U d"
      "c = (if re_word U d \<or> is_space U d then d else 32)"
      by (auto simp: blank_special_def)
    show ?thesis
      using d ns sp by (auto split: if_splits)
  qed
  have ochar: "(re_word U c \<or> is_space U c) \<and> \<not> cat_Mn U c" if "c \<in> set out" for c
  proof -
    from that set_join[of "[32]" ws] have "c = 32 \<or> (\<exists>w \<in> set ws. c \<in> set w)"
      unfolding ow by auto
    then show ?thesis using sp mn wchar by auto
  qed
  have 1: "filter (\<lambda>c. \<not> cat_Mn U c) out = out"
    using ochar by (simp add: filter_id_conv)
  have 2: "blank_special U out = out"
    unfolding blank_special_def using ochar by (intro map_idI) simp
  have 3: "split_ws U out = ws"
    unfolding ow using words by (intro split_ws_join[OF sp]) blast
  have "normalize_text U (CStr out) = join [32] (split_ws U out)"
    by (simp add: normalize_text_def isna_def py_str_def Let_def fx 1 2)
  also have "\<dots> = join [32] ws" by (simp only: 3)
  also have "\<dots> = out" by (simp only: ow)
  finally show ?thesis by (simp add: out_def)
qed

lemma concat_map_single: "\<forall>x \<in> set xs. f x = [x] \<Longrightarrow> concat (map f xs) = xs"
  by (induction xs) simp_all

lemma excerpt_ascii_stable:
  assumes "\<forall>c \<in> set s. c < 128"
  shows "str_lower unicode_excerpt (normalize_string unicode_excerpt (Some s))
           = normalize_string unicode_excerpt (Some s)
       \<and> nfkd unicode_excerpt (normalize_string unicode_excerpt (Some s))
           = normalize_string unicode_excerpt (Some s)"
proof -
  define out where "out = normalize_string unicode_excerpt (Some s)"
  have chars: "d = 32 \<or> (\<exists>c \<in> set s. d = lower_cp c)" if "d \<in> set out" for d
  proof (cases "s = []")
    case True
    with that show ?thesis by (simp add: out_def normalize_string_def)
  next
    case False
    then have "out = strip unicode_excerpt (sub_space_runs unicode_excerpt
        (del_special unicode_excerpt (concat (map nfkd_cp (map lower_cp s)))))"
      by (simp add: out_def normalize_string_def Let_def unicode_excerpt_def)
    with that set_strip
    have "d \<in> set (sub_space_runs unicode_excerpt
        (del_special unicode_excerpt (concat (map nfkd_cp (map lower_cp s)))))"
      by blast
    from set_sub_space_runs[OF this]
    have "d = 32 \<or> d \<in> set (concat (map nfkd_cp (map lower_cp s)))"
      by (auto simp: del_special_def)
    then show ?thesis
    proof
      assume "d = 32"
      then show ?thesis by simp
    next
      assume "d \<in> set (concat (map nfkd_cp (map lower_cp s)))"
      then obtain c where c: "c \<in> set s" "d \<in> set (nfkd_cp (lower_cp c))" by auto
      with assms have "c < 128" by simp
      then have "nfkd_cp (lower_cp c) = [lower_cp c]"
        by (simp add: nfkd_cp_def lower_cp_def)
      with c show ?thesis by auto
    qed
  qed
  have stable: "lower_cp d = d \<and> nfkd_cp d = [d]" if "d \<in> set out" for d
  proof -
    from chars[OF that] show ?thesis
    proof
      assume "d = 32"
      then show ?thesis by (simp add: lower_cp_def nfkd_cp_def)
    next
      assume "\<exists>c \<in> set s. d = lower_cp c"
      then obtain c where "c \<in> set s" "d = lower_cp c" by blast
      with assms have "c < 128" "d = lower_cp c" by simp_all
      then show ?thesis by (simp add: lower_cp_def nfkd_cp_def)
    qed
  qed
  have 1: "map lower_cp out = out"
    using stable by (intro map_idI) simp
  have 2: "concat (map nfkd_cp out) = out"
    using stable by (intro concat_map_single) simp
  have "str_lower unicode_excerpt out = out" "nfkd unicode_excerpt out = out"
    using 1 2 by (simp_all add: unicode_excerpt_def)
  then show ?thesis
    unfolding out_def by (rule conjI)
qed

text \<open>
  Claim C6, as the code has it.  \<open>normalize_string\<close> maps \<open>None\<close> and the empty string
  to the empty string, and \<open>normalize_text\<close> maps \<open>None\<close> and NaN to the empty string.
  Normalizing twice gives the same as normalizing once for every input whose normalized
  form is left unchanged by lowercasing and by NFKD decomposition; this includes every
  ASCII string.  (The tables are assumed to class U+0020 as whitespace and not as a
  non-spacing mark.)  It fails in general, because lowercasing comes before the
  decomposition: U+2122 has no lowercase form and decomposes to \<open>TM\<close>.
\<close>

theorem normalize_idempotent:
  assumes "is_space U 32" and "\<not> cat_Mn U 32"
  shows "normalize_string U None = [] \<and> normalize_string U (Some []) = []
    \<and> normalize_text U CNone = [] \<and> normalize_text U CNaN = []
    \<and> (str_lower U (normalize_string U x) = normalize_string U x
         \<and> nfkd U (normalize_string U x) = normalize_string U x
        \<longrightarrow> normalize_string U (Some (normalize_string U x)) = normalize_string U x)
    \<and> (str_lower U (normalize_text U v) = normalize_text U v
         \<and> nfkd U (normalize_text U v) = normalize_text U v
        \<longrightarrow> normalize_text U (CStr (normalize_text U v)) = normalize_text U v)
    \<and> ((\<forall>c \<in> set s. c < 128)
        \<longrightarrow> normalize_string unicode_excerpt (Some (normalize_string unicode_excerpt (Some s)))
              = normalize_string unicode_excerpt (Some s))"
proof (intro conjI impI)
  show "normalize_string U None = []" by (simp add: normalize_string_def)
  show "normalize_string U (Some []) = []" by (simp add: normalize_string_def)
  show "normalize_text U CNone = []" by (simp add: normalize_text_def isna_def)
  show "normalize_text U CNaN = []" by (simp add: normalize_text_def isna_def)
next
  assume "str_lower U (normalize_string U x) = normalize_string U x
         \<and> nfkd U (normalize_string U x) = normalize_string U x"
  then show "normalize_string U (Some (normalize_string U x)) = normalize_string U x"
    using normalize_string_again[OF assms(1)] by blast
next
  assume "str_lower U (normalize_text U v) = normalize_text U v
         \<and> nfkd U (normalize_text U v) = normalize_text U v"
  then show "normalize_text U (CStr (normalize_text U v)) = normalize_text U v"
    using normalize_text_again[OF assms] by blast
next
  assume a: "\<forall>c \<in> set s. c < 128"
  have sp: "is_space unicode_excerpt 32"
    by (simp add: unicode_excerpt_def space_cp_def)
  from excerpt_ascii_stable[OF a]
  show "normalize_string unicode_excerpt (Some (normalize_string unicode_excerpt (Some s)))
              = normalize_string unicode_excerpt (Some s)"
    using normalize_string_again[OF sp] by blast
qed

lemma norm_a_b:
  "normalize_string unicode_excerpt (Some (lit ''A, b'')) = lit ''a b''"
  "str_lower unicode_excerpt (lit ''a b'') = lit ''a b''"
  "nfkd unicode_excerpt (lit ''a b'') = lit ''a b''"
  by code_simp+

lemma excerpt_space: "is_space unicode_excerpt 32" "\<not> cat_Mn unicode_excerpt 32"
  by (simp_all add: unicode_excerpt_def space_cp_def)

theorem normalize_idempotent_witness:
  "is_space unicode_excerpt 32 \<and> \<not> cat_Mn unicode_excerpt 32
   \<and> str_lower unicode_excerpt (lit ''a b'') = lit ''a b''
   \<and> nfkd unicode_excerpt (lit ''a b'') = lit ''a b''
   \<and> normalize_string unicode_excerpt (Some (lit ''a b'')) = lit ''a b''"
  using normalize_idempotent[OF excerpt_space, where x = "Some (lit ''A, b'')"]
  by (simp add: norm_a_b excerpt_space)

lemma trade_mark_values:
  "normalize_string unicode_excerpt (Some [8482]) = lit ''TM''"
  "normalize_string unicode_excerpt (Some (lit ''TM'')) = lit ''tm''"
  "normalize_text unicode_excerpt (CStr [8482]) = lit ''TM''"
  "normalize_text unicode_excerpt (CStr (lit ''TM'')) = lit ''tm''"
  by code_simp+

theorem normalize_idempotent_counterexample:
  "normalize_string unicode_excerpt (Some (normalize_string unicode_excerpt (Some [8482])))
     \<noteq> normalize_string unicode_excerpt (Some [8482])
   \<and> normalize_text unicode_excerpt (CStr (normalize_text unicode_excerpt (CStr [8482])))
     \<noteq> normalize_text unicode_excerpt (CStr [8482])"
  by (simp add: trade_mark_values) (simp add: lit_def)

end
